theory Spec2Isabelle
  imports Main "HOL-Library.Word"
begin

section \<open>The global interpreter lock of Python/ceval\_gil.h\<close>

text \<open>
  The file is a header of C code that several operating-system threads run at the same
  time.  The embedding follows the POSIX branch of its platform macros.  The static
  variables of the file are a record; every thread has a program counter named after the
  source line it is about to execute and the local variables of \<open>take_gil\<close> and
  \<open>drop_gil\<close>; one step of one thread executes one statement.  What the C library and
  the rest of the interpreter decide (return codes, the value left in \<open>errno\<close>, which
  waiter a signal unblocks, a spurious wake-up, the field \<open>tstate->async_exc\<close>) comes
  with the step as its environment.  \<open>Py_FatalError\<close> ends the process: the message is
  stored and no thread steps any more.
\<close>

subsection \<open>Data\<close>

type_synonym tid = nat

text \<open>A \<open>PyThreadState *\<close> is compared, never followed, but for one field read.\<close>

datatype ptr = NULL | Addr nat

text \<open>\<open>unsigned long\<close> on an LP64 system.\<close>

type_synonym ulong = "64 word"

definition DEFAULT_INTERVAL :: ulong where
  "DEFAULT_INTERVAL = 5000"

text \<open>The constant of \<open>errno.h\<close> (its Linux value; only its being non-zero matters).\<close>

definition ETIMEDOUT :: int where
  "ETIMEDOUT = 110"

text \<open>
  A \<open>pthread_mutex_t\<close> is its owner, if any; a \<open>pthread_cond_t\<close> is the set of threads
  blocked on it that no signal has unblocked yet.
\<close>

type_synonym MUTEX_T = "tid option"
type_synonym COND_T = "tid set"

text \<open>
  The static variables, lines 13 and 199--216.  \<open>gil_drop_request\<close> is declared in
  ceval.c, with the macros that set and reset it.
\<close>

record gil_state =
  gil_interval :: ulong
  gil_locked :: int
  gil_switch_number :: ulong
  gil_last_holder :: ptr
  gil_cond :: COND_T
  gil_mutex :: MUTEX_T
  switch_cond :: COND_T
  switch_mutex :: MUTEX_T
  gil_drop_request :: int

text \<open>
  Program counters: \<open>T_n\<close> is line \<open>n\<close> of \<open>take_gil\<close>, \<open>D_n\<close> line \<open>n\<close> of \<open>drop_gil\<close>.
  A thread is \<open>Idle\<close> outside both functions when it does not own the lock, and
  \<open>Running\<close> between its return from \<open>take_gil\<close> and its next call of \<open>drop_gil\<close>.
\<close>

datatype pc =
    Idle | Running
  | T_274 | T_277 | T_278 | T_280 | T_284 | T_288 | T_289 | T_289_blocked | T_292
  | T_299 | T_302 | T_304 | T_309 | T_310 | T_312 | T_315 | T_319 | T_320
  | D_247 | D_249 | D_252 | D_253 | D_254 | D_258 | D_261 | D_262 | D_264 | D_265
  | D_265_blocked | D_266

text \<open>
  The thread-local \<open>errno\<close>, the parameter and locals of \<open>take_gil\<close> (\<open>microseconds\<close> is
  the argument the macro \<open>COND_TIMED_WAIT\<close> receives) and the parameter of \<open>drop_gil\<close>.
\<close>

record thread =
  pc :: pc
  errno :: int
  take_tstate :: ptr
  err :: int
  timed_out :: int
  saved_switchnum :: ulong
  microseconds :: ulong
  drop_tstate :: ptr

record state = gil_state +
  thr :: "tid \<Rightarrow> thread"
  fatal :: "string option"

text \<open>What the environment decides for one step.\<close>

record env =
  rc :: int
  errno_out :: int
  woken :: "tid set"
  async_exc :: ptr
  spurious :: bool

datatype event =
    Call_take_gil ptr
  | Call_drop_gil ptr
  | Call_SetSwitchInterval ulong
  | Exec env

subsection \<open>Settings and creation\<close>

text \<open>Line 14: \<open>#define INTERVAL (gil_interval >= 1 ? gil_interval : 1)\<close>.\<close>

definition INTERVAL :: "'a gil_state_scheme \<Rightarrow> ulong" where
  "INTERVAL g = (if gil_interval g \<ge> 1 then gil_interval g else 1)"

definition PyEval_SetSwitchInterval :: "ulong \<Rightarrow> 'a gil_state_scheme \<Rightarrow> 'a gil_state_scheme" where
  "PyEval_SetSwitchInterval microsecs g = g\<lparr>gil_interval := microsecs\<rparr>"

definition PyEval_GetSwitchInterval :: "'a gil_state_scheme \<Rightarrow> ulong" where
  "PyEval_GetSwitchInterval g = gil_interval g"

text \<open>
  The values of the static initialisers, before \<open>create_gil\<close> has run.  The mutexes and
  condition variables are zero bytes then; they are taken to be unlocked and without
  waiters.
\<close>

definition static_init :: gil_state where
  "static_init = \<lparr>gil_interval = DEFAULT_INTERVAL, gil_locked = - 1, gil_switch_number = 0,
     gil_last_holder = NULL, gil_cond = {}, gil_mutex = None, switch_cond = {},
     switch_mutex = None, gil_drop_request = 0\<rparr>"

definition gil_created :: "'a gil_state_scheme \<Rightarrow> bool" where
  "gil_created g = (gil_locked g \<ge> 0)"

text \<open>
  \<open>create_gil\<close>, lines 225--237.  The four arguments are the return codes of the two
  \<open>pthread_mutex_init\<close> and the two \<open>pthread_cond_init\<close> calls; a non-zero one is fatal.
\<close>

definition create_gil ::
  "int \<Rightarrow> int \<Rightarrow> int \<Rightarrow> int \<Rightarrow> 'a gil_state_scheme \<Rightarrow> string + 'a gil_state_scheme" where
  "create_gil r1 r2 r3 r4 g =
     (if r1 \<noteq> 0 then Inl ''pthread_mutex_init(gil_mutex) failed''
      else if r2 \<noteq> 0 then Inl ''pthread_mutex_init(switch_mutex) failed''
      else if r3 \<noteq> 0 then Inl ''pthread_cond_init(gil_cond) failed''
      else if r4 \<noteq> 0 then Inl ''pthread_cond_init(switch_cond) failed''
      else Inr (g\<lparr>gil_mutex := None, switch_mutex := None, gil_cond := {},
                  switch_cond := {}, gil_locked := 0, gil_last_holder := NULL\<rparr>))"

definition recreate_gil ::
  "int \<Rightarrow> int \<Rightarrow> int \<Rightarrow> int \<Rightarrow> 'a gil_state_scheme \<Rightarrow> string + 'a gil_state_scheme" where
  "recreate_gil r1 r2 r3 r4 g = create_gil r1 r2 r3 r4 g"

subsection \<open>Primitives of the POSIX branch\<close>

text \<open>
  Modelled from the spec: \<open>Py_FatalError\<close> is defined outside the file; the spec has it
  abort the process with a descriptive message.
\<close>

definition Py_FatalError :: "string \<Rightarrow> state \<Rightarrow> state" where
  "Py_FatalError msg s = s\<lparr>fatal := Some msg\<rparr>"

text \<open>Thread \<open>i\<close> changes its own variables.\<close>

definition upd :: "tid \<Rightarrow> (thread \<Rightarrow> thread) \<Rightarrow> state \<Rightarrow> state" where
  "upd i f s = s\<lparr>thr := (thr s)(i := f (thr s i))\<rparr>"

text \<open>
  \<open>MUTEX_LOCK\<close> and \<open>MUTEX_UNLOCK\<close> (lines 94--99) on each of the two mutexes.  A locked
  mutex blocks the caller: the step is not enabled.  The library call may leave any value
  in the caller's \<open>errno\<close>.  \<open>l\<close> is the line that follows.
\<close>

definition MUTEX_LOCK_gil_mutex :: "tid \<Rightarrow> env \<Rightarrow> pc \<Rightarrow> state \<Rightarrow> state option" where
  "MUTEX_LOCK_gil_mutex i e l s =
     (if rc e \<noteq> 0 then Some (Py_FatalError ''pthread_mutex_lock(gil_mutex) failed'' s)
      else if gil_mutex s \<noteq> None then None
      else Some (upd i (\<lambda>t. t\<lparr>errno := errno_out e, pc := l\<rparr>) (s\<lparr>gil_mutex := Some i\<rparr>)))"

definition MUTEX_UNLOCK_gil_mutex :: "tid \<Rightarrow> env \<Rightarrow> pc \<Rightarrow> state \<Rightarrow> state option" where
  "MUTEX_UNLOCK_gil_mutex i e l s =
     (if rc e \<noteq> 0 then Some (Py_FatalError ''pthread_mutex_unlock(gil_mutex) failed'' s)
      else Some (upd i (\<lambda>t. t\<lparr>errno := errno_out e, pc := l\<rparr>) (s\<lparr>gil_mutex := None\<rparr>)))"

definition MUTEX_LOCK_switch_mutex :: "tid \<Rightarrow> env \<Rightarrow> pc \<Rightarrow> state \<Rightarrow> state option" where
  "MUTEX_LOCK_switch_mutex i e l s =
     (if rc e \<noteq> 0 then Some (Py_FatalError ''pthread_mutex_lock(switch_mutex) failed'' s)
      else if switch_mutex s \<noteq> None then None
      else Some (upd i (\<lambda>t. t\<lparr>errno := errno_out e, pc := l\<rparr>) (s\<lparr>switch_mutex := Some i\<rparr>)))"

definition MUTEX_UNLOCK_switch_mutex :: "tid \<Rightarrow> env \<Rightarrow> pc \<Rightarrow> state \<Rightarrow> state option" where
  "MUTEX_UNLOCK_switch_mutex i e l s =
     (if rc e \<noteq> 0 then Some (Py_FatalError ''pthread_mutex_unlock(switch_mutex) failed'' s)
      else Some (upd i (\<lambda>t. t\<lparr>errno := errno_out e, pc := l\<rparr>) (s\<lparr>switch_mutex := None\<rparr>)))"

text \<open>
  \<open>pthread_cond_signal\<close> unblocks at least one of the threads blocked on the condition
  variable, if there is any: the set \<open>w\<close> the environment names.
\<close>

definition unblocks :: "tid set \<Rightarrow> COND_T \<Rightarrow> bool" where
  "unblocks w c = (w \<subseteq> c \<and> (w = {}) = (c = {}))"

definition COND_SIGNAL_gil_cond :: "tid \<Rightarrow> env \<Rightarrow> pc \<Rightarrow> state \<Rightarrow> state option" where
  "COND_SIGNAL_gil_cond i e l s =
     (if rc e \<noteq> 0 then Some (Py_FatalError ''pthread_cond_signal(gil_cond) failed'' s)
      else if unblocks (woken e) (gil_cond s)
      then Some (upd i (\<lambda>t. t\<lparr>errno := errno_out e, pc := l\<rparr>)
                  (s\<lparr>gil_cond := gil_cond s - woken e\<rparr>))
      else None)"

definition COND_SIGNAL_switch_cond :: "tid \<Rightarrow> env \<Rightarrow> pc \<Rightarrow> state \<Rightarrow> state option" where
  "COND_SIGNAL_switch_cond i e l s =
     (if rc e \<noteq> 0 then Some (Py_FatalError ''pthread_cond_signal(switch_cond) failed'' s)
      else if unblocks (woken e) (switch_cond s)
      then Some (upd i (\<lambda>t. t\<lparr>errno := errno_out e, pc := l\<rparr>)
                  (s\<lparr>switch_cond := switch_cond s - woken e\<rparr>))
      else None)"

text \<open>
  Modelled from the spec: the macros \<open>SET_GIL_DROP_REQUEST\<close> and
  \<open>RESET_GIL_DROP_REQUEST\<close> are defined in ceval.c; the spec has them write true and
  false to the drop-request flag.
\<close>

definition SET_GIL_DROP_REQUEST :: "state \<Rightarrow> state" where
  "SET_GIL_DROP_REQUEST s = s\<lparr>gil_drop_request := 1\<rparr>"

definition RESET_GIL_DROP_REQUEST :: "state \<Rightarrow> state" where
  "RESET_GIL_DROP_REQUEST s = s\<lparr>gil_drop_request := 0\<rparr>"

text \<open>
  Modelled from the spec: the pending-signals hook \<open>_PyEval_SignalAsyncExc\<close> is defined
  in ceval.c and opaque to the lock; it touches none of the variables of this file.  As a
  call out of the file it may leave any value in \<open>errno\<close>.
\<close>

definition PyEval_SignalAsyncExc :: "tid \<Rightarrow> env \<Rightarrow> state \<Rightarrow> state" where
  "PyEval_SignalAsyncExc i e s = upd i (\<lambda>t. t\<lparr>errno := errno_out e\<rparr>) s"

subsection \<open>take\_gil, lines 271--321\<close>

text \<open>
  Line 289 is two steps.  The first computes the deadline from \<open>INTERVAL\<close>, releases
  \<open>gil_mutex\<close> and blocks the thread on \<open>gil_cond\<close>.  The second is the return of
  \<open>pthread_cond_timedwait\<close>, which has taken \<open>gil_mutex\<close> again: with \<open>ETIMEDOUT\<close> at
  any time, with 0 once a signal has unblocked the thread or spuriously, with another
  code fatally.  Line 315 reads \<open>tstate->async_exc\<close>, a field the environment supplies.
\<close>

definition take_gil :: "tid \<Rightarrow> env \<Rightarrow> state \<Rightarrow> state option" where
  "take_gil i e s =
     (case pc (thr s i) of
        T_274 \<Rightarrow>
          Some (if take_tstate (thr s i) = NULL then Py_FatalError ''take_gil: NULL tstate'' s
                else upd i (\<lambda>t. t\<lparr>pc := T_277\<rparr>) s)
      | T_277 \<Rightarrow> Some (upd i (\<lambda>t. t\<lparr>err := errno t, pc := T_278\<rparr>) s)
      | T_278 \<Rightarrow> MUTEX_LOCK_gil_mutex i e T_280 s
      | T_280 \<Rightarrow> Some (upd i (\<lambda>t. t\<lparr>pc := (if gil_locked s = 0 then T_299 else T_284)\<rparr>) s)
      | T_284 \<Rightarrow> Some (upd i (\<lambda>t. t\<lparr>pc := (if gil_locked s \<noteq> 0 then T_288 else T_299)\<rparr>) s)
      | T_288 \<Rightarrow>
          Some (upd i (\<lambda>t. t\<lparr>timed_out := 0, saved_switchnum := gil_switch_number s,
                              pc := T_289\<rparr>) s)
      | T_289 \<Rightarrow>
          Some (upd i (\<lambda>t. t\<lparr>errno := errno_out e, microseconds := INTERVAL s,
                              pc := T_289_blocked\<rparr>)
                  (s\<lparr>gil_mutex := None, gil_cond := insert i (gil_cond s)\<rparr>))
      | T_289_blocked \<Rightarrow>
          (if rc e = ETIMEDOUT then
             (if gil_mutex s \<noteq> None then None
              else Some (upd i (\<lambda>t. t\<lparr>errno := errno_out e, timed_out := 1, pc := T_292\<rparr>)
                          (s\<lparr>gil_mutex := Some i, gil_cond := gil_cond s - {i}\<rparr>)))
           else if rc e \<noteq> 0 then
             Some (Py_FatalError ''pthread_cond_timedwait(gil_cond) failed'' s)
           else if gil_mutex s \<noteq> None \<or> (i \<in> gil_cond s \<and> \<not> spurious e) then None
           else Some (upd i (\<lambda>t. t\<lparr>errno := errno_out e, timed_out := 0, pc := T_292\<rparr>)
                       (s\<lparr>gil_mutex := Some i, gil_cond := gil_cond s - {i}\<rparr>)))
      | T_292 \<Rightarrow>
          Some (upd i (\<lambda>t. t\<lparr>pc := T_284\<rparr>)
                  (if timed_out (thr s i) \<noteq> 0 \<and> gil_locked s \<noteq> 0
                      \<and> gil_switch_number s = saved_switchnum (thr s i)
                   then SET_GIL_DROP_REQUEST s else s))
      | T_299 \<Rightarrow> MUTEX_LOCK_switch_mutex i e T_302 s
      | T_302 \<Rightarrow> Some (upd i (\<lambda>t. t\<lparr>pc := T_304\<rparr>) (s\<lparr>gil_locked := 1\<rparr>))
      | T_304 \<Rightarrow>
          Some (upd i (\<lambda>t. t\<lparr>pc := T_309\<rparr>)
                  (if take_tstate (thr s i) \<noteq> gil_last_holder s
                   then s\<lparr>gil_last_holder := take_tstate (thr s i),
                          gil_switch_number := gil_switch_number s + 1\<rparr>
                   else s))
      | T_309 \<Rightarrow> COND_SIGNAL_switch_cond i e T_310 s
      | T_310 \<Rightarrow> MUTEX_UNLOCK_switch_mutex i e T_312 s
      | T_312 \<Rightarrow>
          Some (upd i (\<lambda>t. t\<lparr>pc := T_315\<rparr>)
                  (if gil_drop_request s \<noteq> 0 then RESET_GIL_DROP_REQUEST s else s))
      | T_315 \<Rightarrow>
          Some (upd i (\<lambda>t. t\<lparr>pc := T_319\<rparr>)
                  (if async_exc e \<noteq> NULL then PyEval_SignalAsyncExc i e s else s))
      | T_319 \<Rightarrow> MUTEX_UNLOCK_gil_mutex i e T_320 s
      | T_320 \<Rightarrow> Some (upd i (\<lambda>t. t\<lparr>errno := err t, pc := Running\<rparr>) s)
      | _ \<Rightarrow> None)"

subsection \<open>drop\_gil, lines 244--269\<close>

text \<open>
  Line 265 is two steps, like line 289: \<open>pthread_cond_wait\<close> releases \<open>switch_mutex\<close> and
  blocks on \<open>switch_cond\<close>; it returns 0, holding \<open>switch_mutex\<close> again, once a signal
  has unblocked the thread or spuriously.  \<open>COND_PREPARE\<close> (line 256) is empty here.
\<close>

definition drop_gil :: "tid \<Rightarrow> env \<Rightarrow> state \<Rightarrow> state option" where
  "drop_gil i e s =
     (case pc (thr s i) of
        D_247 \<Rightarrow>
          Some (if gil_locked s = 0 then Py_FatalError ''drop_gil: GIL is not locked'' s
                else upd i (\<lambda>t. t\<lparr>pc := D_249\<rparr>) s)
      | D_249 \<Rightarrow>
          Some (if drop_tstate (thr s i) \<noteq> NULL \<and> drop_tstate (thr s i) \<noteq> gil_last_holder s
                then Py_FatalError ''drop_gil: wrong thread state'' s
                else upd i (\<lambda>t. t\<lparr>pc := D_252\<rparr>) s)
      | D_252 \<Rightarrow> MUTEX_LOCK_gil_mutex i e D_253 s
      | D_253 \<Rightarrow> Some (upd i (\<lambda>t. t\<lparr>pc := D_254\<rparr>) (s\<lparr>gil_locked := 0\<rparr>))
      | D_254 \<Rightarrow> COND_SIGNAL_gil_cond i e D_258 s
      | D_258 \<Rightarrow> MUTEX_UNLOCK_gil_mutex i e D_261 s
      | D_261 \<Rightarrow> Some (upd i (\<lambda>t. t\<lparr>pc := (if gil_drop_request s \<noteq> 0 then D_262 else Idle)\<rparr>) s)
      | D_262 \<Rightarrow> MUTEX_LOCK_switch_mutex i e D_264 s
      | D_264 \<Rightarrow>
          Some (upd i (\<lambda>t. t\<lparr>pc := (if gil_last_holder s = drop_tstate (thr s i)
                                      then D_265 else D_266)\<rparr>) s)
      | D_265 \<Rightarrow>
          Some (upd i (\<lambda>t. t\<lparr>errno := errno_out e, pc := D_265_blocked\<rparr>)
                  (s\<lparr>switch_mutex := None, switch_cond := insert i (switch_cond s)\<rparr>))
      | D_265_blocked \<Rightarrow>
          (if rc e \<noteq> 0 then Some (Py_FatalError ''pthread_cond_wait(switch_cond) failed'' s)
           else if switch_mutex s \<noteq> None \<or> (i \<in> switch_cond s \<and> \<not> spurious e) then None
           else Some (upd i (\<lambda>t. t\<lparr>errno := errno_out e, pc := D_266\<rparr>)
                       (s\<lparr>switch_mutex := Some i, switch_cond := switch_cond s - {i}\<rparr>)))
      | D_266 \<Rightarrow> MUTEX_UNLOCK_switch_mutex i e Idle s
      | _ \<Rightarrow> None)"

subsection \<open>The process\<close>

text \<open>
  A thread outside the two functions calls \<open>take_gil\<close> when it does not own the lock and
  \<open>drop_gil\<close> when it does, with any argument, and may set the switch interval; a thread
  inside executes its next statement.  After a fatal error nothing runs.
\<close>

definition call_take_gil :: "tid \<Rightarrow> ptr \<Rightarrow> state \<Rightarrow> state" where
  "call_take_gil i p s = upd i (\<lambda>t. t\<lparr>take_tstate := p, pc := T_274\<rparr>) s"

definition call_drop_gil :: "tid \<Rightarrow> ptr \<Rightarrow> state \<Rightarrow> state" where
  "call_drop_gil i p s = upd i (\<lambda>t. t\<lparr>drop_tstate := p, pc := D_247\<rparr>) s"

definition step :: "tid \<Rightarrow> event \<Rightarrow> state \<Rightarrow> state option" where
  "step i ev s =
     (if fatal s \<noteq> None then None
      else case ev of
        Call_take_gil p \<Rightarrow> (if pc (thr s i) = Idle then Some (call_take_gil i p s) else None)
      | Call_drop_gil p \<Rightarrow> (if pc (thr s i) = Running then Some (call_drop_gil i p s) else None)
      | Call_SetSwitchInterval v \<Rightarrow>
          (if pc (thr s i) = Idle \<or> pc (thr s i) = Running
           then Some (PyEval_SetSwitchInterval v s) else None)
      | Exec e \<Rightarrow>
          (case take_gil i e s of Some s' \<Rightarrow> Some s' | None \<Rightarrow> drop_gil i e s))"

text \<open>A schedule names, step by step, the thread that runs and its event.\<close>

fun run :: "(tid \<times> event) list \<Rightarrow> state \<Rightarrow> state option" where
  "run [] s = Some s"
| "run ((i, ev) # sched) s = (case step i ev s of None \<Rightarrow> None | Some s' \<Rightarrow> run sched s')"

text \<open>
  A process whose static variables are \<open>g\<close> and whose threads are all outside the two
  functions, none owning the lock: the process after \<open>create_gil\<close>, and the child of a
  fork after \<open>recreate_gil\<close>.
\<close>

definition idle_thread :: thread where
  "idle_thread = \<lparr>pc = Idle, errno = 0, take_tstate = NULL, err = 0, timed_out = 0,
     saved_switchnum = 0, microseconds = 0, drop_tstate = NULL\<rparr>"

definition init :: "gil_state \<Rightarrow> state" where
  "init g = \<lparr>gil_interval = gil_interval g, gil_locked = gil_locked g,
     gil_switch_number = gil_switch_number g, gil_last_holder = gil_last_holder g,
     gil_cond = gil_cond g, gil_mutex = gil_mutex g, switch_cond = switch_cond g,
     switch_mutex = switch_mutex g, gil_drop_request = gil_drop_request g,
     thr = (\<lambda>_. idle_thread), fatal = None\<rparr>"

text \<open>The environment of a step in which nothing fails.\<close>

definition ok :: env where
  "ok = \<lparr>rc = 0, errno_out = 0, woken = {}, async_exc = NULL, spurious = False\<rparr>"

subsection \<open>Regions of the code and the invariant of the lock\<close>

text \<open>The lines at which a thread holds \<open>gil_mutex\<close>, and those at which it holds \<open>switch_mutex\<close>.\<close>

fun gm_held :: "pc \<Rightarrow> bool" where
  "gm_held T_280 = True" | "gm_held T_284 = True" | "gm_held T_288 = True" | "gm_held T_289 = True"
| "gm_held T_292 = True" | "gm_held T_299 = True" | "gm_held T_302 = True" | "gm_held T_304 = True"
| "gm_held T_309 = True" | "gm_held T_310 = True" | "gm_held T_312 = True" | "gm_held T_315 = True"
| "gm_held T_319 = True" | "gm_held D_253 = True" | "gm_held D_254 = True" | "gm_held D_258 = True"
| "gm_held _ = False"

fun sm_held :: "pc \<Rightarrow> bool" where
  "sm_held T_302 = True" | "sm_held T_304 = True" | "sm_held T_309 = True" | "sm_held T_310 = True"
| "sm_held D_264 = True" | "sm_held D_265 = True" | "sm_held D_266 = True"
| "sm_held _ = False"

text \<open>
  The logical owner of the lock: a thread from its assignment \<open>gil_locked = 1\<close> (line 302
  done) to its assignment \<open>gil_locked = 0\<close> (line 253 not yet done).
\<close>

fun owner :: "pc \<Rightarrow> bool" where
  "owner T_304 = True" | "owner T_309 = True" | "owner T_310 = True" | "owner T_312 = True"
| "owner T_315 = True" | "owner T_319 = True" | "owner T_320 = True" | "owner Running = True"
| "owner D_247 = True" | "owner D_249 = True" | "owner D_252 = True" | "owner D_253 = True"
| "owner _ = False"

text \<open>The lines of a thread that has not executed lines 304--307 since it last was idle.\<close>

fun before_304 :: "pc \<Rightarrow> bool" where
  "before_304 Idle = True" | "before_304 T_274 = True" | "before_304 T_277 = True"
| "before_304 T_278 = True" | "before_304 T_280 = True" | "before_304 T_284 = True"
| "before_304 T_288 = True" | "before_304 T_289 = True" | "before_304 T_289_blocked = True"
| "before_304 T_292 = True" | "before_304 T_299 = True" | "before_304 T_302 = True"
| "before_304 T_304 = True" | "before_304 _ = False"

definition gil_mutex_inv :: "state \<Rightarrow> bool" where
  "gil_mutex_inv s = (\<forall>i. (gil_mutex s = Some i) = gm_held (pc (thr s i)))"

definition switch_mutex_inv :: "state \<Rightarrow> bool" where
  "switch_mutex_inv s = (\<forall>i. (switch_mutex s = Some i) = sm_held (pc (thr s i)))"

definition owner_locked :: "state \<Rightarrow> bool" where
  "owner_locked s = (\<forall>i. owner (pc (thr s i)) \<longrightarrow> gil_locked s = 1)"

definition owner_unique :: "state \<Rightarrow> bool" where
  "owner_unique s = (\<forall>i j. owner (pc (thr s i)) \<and> owner (pc (thr s j)) \<longrightarrow> i = j)"

definition locked_owner :: "state \<Rightarrow> bool" where
  "locked_owner s = (gil_locked s = 0 \<or> (\<exists>i. owner (pc (thr s i))))"

definition ready_free :: "state \<Rightarrow> bool" where
  "ready_free s = (\<forall>i. pc (thr s i) = T_299 \<or> pc (thr s i) = T_302 \<longrightarrow> gil_locked s = 0)"

definition owner_last_holder :: "state \<Rightarrow> bool" where
  "owner_last_holder s =
     (\<forall>i. owner (pc (thr s i)) \<and> pc (thr s i) \<noteq> T_304 \<longrightarrow> take_tstate (thr s i) = gil_last_holder s)"

definition tstate_not_NULL :: "state \<Rightarrow> bool" where
  "tstate_not_NULL s =
     (\<forall>i. pc (thr s i) \<noteq> Idle \<and> pc (thr s i) \<noteq> T_274 \<longrightarrow> take_tstate (thr s i) \<noteq> NULL)"

definition last_holder_set :: "state \<Rightarrow> bool" where
  "last_holder_set s = (\<forall>i. gil_last_holder s = NULL \<longrightarrow> before_304 (pc (thr s i)))"

definition waiter_not_NULL :: "state \<Rightarrow> bool" where
  "waiter_not_NULL s =
     (\<forall>i. pc (thr s i) = D_265 \<or> pc (thr s i) = D_265_blocked \<longrightarrow> drop_tstate (thr s i) \<noteq> NULL)"

definition gil_inv :: "state \<Rightarrow> bool" where
  "gil_inv s =
     (gil_mutex_inv s \<and> switch_mutex_inv s \<and> owner_locked s \<and> owner_unique s \<and> locked_owner s \<and>
      ready_free s \<and> owner_last_holder s \<and> tstate_not_NULL s \<and> last_holder_set s \<and>
      waiter_not_NULL s)"

subsection \<open>Runs of one call\<close>

text \<open>
  An event by which a thread enters one of the two functions; a schedule in which thread
  \<open>i\<close> enters neither, so that it is inside at most the call it started with.
\<close>

definition enters :: "event \<Rightarrow> bool" where
  "enters ev = (case ev of Call_take_gil _ \<Rightarrow> True | Call_drop_gil _ \<Rightarrow> True | _ \<Rightarrow> False)"

fun stays :: "tid \<Rightarrow> (tid \<times> event) list \<Rightarrow> bool" where
  "stays i [] = True"
| "stays i ((j, ev) # sched) = ((j \<noteq> i \<or> \<not> enters ev) \<and> stays i sched)"

text \<open>
  The executions of lines 304--307 during a run, in order: the thread and the identity
  it passed to \<open>take_gil\<close>.
\<close>

fun acquisitions :: "(tid \<times> event) list \<Rightarrow> state \<Rightarrow> (tid \<times> ptr) list" where
  "acquisitions [] s = []"
| "acquisitions ((i, ev) # sched) s =
     (case step i ev s of
        None \<Rightarrow> []
      | Some s' \<Rightarrow>
          (if pc (thr s i) = T_304 then [(i, take_tstate (thr s i))] else []) @ acquisitions sched s')"

text \<open>
  The identities with which the threads other than \<open>i\<close> execute lines 304--307 during a
  run, in order; and the last of them, which is \<open>gil_last_holder\<close> once they are done: the
  value at the start of the run when there is none.
\<close>

definition other_acquisitions :: "tid \<Rightarrow> (tid \<times> event) list \<Rightarrow> state \<Rightarrow> ptr list" where
  "other_acquisitions i sched s = map snd (filter (\<lambda>a. fst a \<noteq> i) (acquisitions sched s))"

definition previous_holder :: "tid \<Rightarrow> (tid \<times> event) list \<Rightarrow> state \<Rightarrow> ptr" where
  "previous_holder i sched s = last (gil_last_holder s # other_acquisitions i sched s)"

text \<open>
  The returns of \<open>take_gil\<close> during a run, in order, with the same data; and the lines
  of a take that has executed lines 304--307 and has not returned yet.
\<close>

fun returns :: "(tid \<times> event) list \<Rightarrow> state \<Rightarrow> (tid \<times> ptr) list" where
  "returns [] s = []"
| "returns ((i, ev) # sched) s =
     (case step i ev s of
        None \<Rightarrow> []
      | Some s' \<Rightarrow>
          (if pc (thr s i) = T_320 then [(i, take_tstate (thr s i))] else []) @ returns sched s')"

fun acquiring :: "pc \<Rightarrow> bool" where
  "acquiring T_309 = True" | "acquiring T_310 = True" | "acquiring T_312 = True"
| "acquiring T_315 = True" | "acquiring T_319 = True" | "acquiring T_320 = True"
| "acquiring _ = False"

text \<open>The lines of \<open>take_gil\<close> up to line 304, and from line 309 to the return.\<close>

fun take_before_304 :: "pc \<Rightarrow> bool" where
  "take_before_304 T_274 = True" | "take_before_304 T_277 = True"
| "take_before_304 T_278 = True" | "take_before_304 T_280 = True" | "take_before_304 T_284 = True"
| "take_before_304 T_288 = True" | "take_before_304 T_289 = True" | "take_before_304 T_289_blocked = True"
| "take_before_304 T_292 = True" | "take_before_304 T_299 = True" | "take_before_304 T_302 = True"
| "take_before_304 T_304 = True" | "take_before_304 _ = False"

fun take_after_304 :: "pc \<Rightarrow> bool" where
  "take_after_304 T_309 = True" | "take_after_304 T_310 = True" | "take_after_304 T_312 = True"
| "take_after_304 T_315 = True" | "take_after_304 T_319 = True" | "take_after_304 T_320 = True"
| "take_after_304 Running = True" | "take_after_304 _ = False"

text \<open>A schedule in which thread \<open>i\<close> does not run at all.\<close>

fun unscheduled :: "tid \<Rightarrow> (tid \<times> event) list \<Rightarrow> bool" where
  "unscheduled i [] = True"
| "unscheduled i ((j, ev) # sched) = (j \<noteq> i \<and> unscheduled i sched)"

text \<open>The lines of \<open>drop_gil\<close>, and those of them that call a mutex or condition primitive.\<close>

fun in_drop_gil :: "pc \<Rightarrow> bool" where
  "in_drop_gil D_247 = True" | "in_drop_gil D_249 = True" | "in_drop_gil D_252 = True"
| "in_drop_gil D_253 = True" | "in_drop_gil D_254 = True" | "in_drop_gil D_258 = True"
| "in_drop_gil D_261 = True" | "in_drop_gil D_262 = True" | "in_drop_gil D_264 = True"
| "in_drop_gil D_265 = True" | "in_drop_gil D_265_blocked = True" | "in_drop_gil D_266 = True"
| "in_drop_gil _ = False"

fun drop_primitive :: "pc \<Rightarrow> bool" where
  "drop_primitive D_252 = True" | "drop_primitive D_254 = True" | "drop_primitive D_258 = True"
| "drop_primitive D_262 = True" | "drop_primitive D_265_blocked = True" | "drop_primitive D_266 = True"
| "drop_primitive _ = False"

text \<open>
  What keeps the caller's \<open>errno\<close> during a call of \<open>take_gil\<close>: \<open>errno\<close> itself before
  line 277 and after line 320, the local \<open>err\<close> in between.
\<close>

fun errno_saved :: "pc \<Rightarrow> bool" where
  "errno_saved T_278 = True" | "errno_saved T_280 = True" | "errno_saved T_284 = True"
| "errno_saved T_288 = True" | "errno_saved T_289 = True" | "errno_saved T_289_blocked = True"
| "errno_saved T_292 = True" | "errno_saved T_299 = True" | "errno_saved T_302 = True"
| "errno_saved T_304 = True" | "errno_saved T_309 = True" | "errno_saved T_310 = True"
| "errno_saved T_312 = True" | "errno_saved T_315 = True" | "errno_saved T_319 = True"
| "errno_saved T_320 = True" | "errno_saved _ = False"

definition errno_kept :: "int \<Rightarrow> thread \<Rightarrow> bool" where
  "errno_kept v t =
     ((pc t = T_274 \<or> pc t = T_277 \<or> pc t = Running) \<and> errno t = v \<or>
      errno_saved (pc t) \<and> err t = v)"

subsection \<open>The handoff\<close>

text \<open>
  An event that wakes a waiting thread spuriously; a schedule in which thread \<open>i\<close> is
  never woken so; a schedule in which every thread \<open>j\<close> passes its own thread state
  \<open>ident j\<close> to \<open>take_gil\<close>, and the states such schedules lead to.
\<close>

definition spurious_wake :: "event \<Rightarrow> bool" where
  "spurious_wake ev = (case ev of Exec e \<Rightarrow> spurious e | _ \<Rightarrow> False)"

fun no_spurious :: "tid \<Rightarrow> (tid \<times> event) list \<Rightarrow> bool" where
  "no_spurious i [] = True"
| "no_spurious i ((j, ev) # sched) = ((j \<noteq> i \<or> \<not> spurious_wake ev) \<and> no_spurious i sched)"

definition own_call :: "(tid \<Rightarrow> ptr) \<Rightarrow> tid \<Rightarrow> event \<Rightarrow> bool" where
  "own_call ident j ev = (case ev of Call_take_gil p \<Rightarrow> p = ident j | _ \<Rightarrow> True)"

fun own_identity :: "(tid \<Rightarrow> ptr) \<Rightarrow> (tid \<times> event) list \<Rightarrow> bool" where
  "own_identity ident [] = True"
| "own_identity ident ((j, ev) # sched) = (own_call ident j ev \<and> own_identity ident sched)"

definition identities :: "(tid \<Rightarrow> ptr) \<Rightarrow> state \<Rightarrow> bool" where
  "identities ident s = (\<forall>j. pc (thr s j) \<noteq> Idle \<longrightarrow> take_tstate (thr s j) = ident j)"

text \<open>
  What holds of a thread \<open>i\<close> that called \<open>drop_gil(t)\<close> with the drop request set, at each
  of its lines: up to line 261 the request is still set or the last holder is already
  another one; once blocked at line 265, the thread has not been signalled or the last
  holder is another one; from line 266 on, the last holder is another one.
\<close>

fun before_wait :: "pc \<Rightarrow> bool" where
  "before_wait D_247 = True" | "before_wait D_249 = True" | "before_wait D_252 = True"
| "before_wait D_253 = True" | "before_wait D_254 = True" | "before_wait D_258 = True"
| "before_wait D_261 = True" | "before_wait _ = False"

fun checked :: "pc \<Rightarrow> bool" where
  "checked D_252 = True" | "checked D_253 = True" | "checked D_254 = True"
| "checked D_258 = True" | "checked D_261 = True" | "checked D_262 = True"
| "checked D_264 = True" | "checked D_265 = True" | "checked D_265_blocked = True"
| "checked D_266 = True" | "checked Idle = True" | "checked _ = False"

definition handoff_inv :: "(tid \<Rightarrow> ptr) \<Rightarrow> tid \<Rightarrow> ptr \<Rightarrow> state \<Rightarrow> bool" where
  "handoff_inv ident i t s =
     ((in_drop_gil (pc (thr s i)) \<or> pc (thr s i) = Idle) \<and>
      drop_tstate (thr s i) = t \<and>
      (before_wait (pc (thr s i)) \<longrightarrow> gil_drop_request s \<noteq> 0 \<or> gil_last_holder s \<noteq> t) \<and>
      (checked (pc (thr s i)) \<longrightarrow> t = NULL \<or> t = ident i) \<and>
      (pc (thr s i) = D_265_blocked \<longrightarrow> i \<in> switch_cond s \<or> gil_last_holder s \<noteq> t) \<and>
      (pc (thr s i) = D_266 \<or> pc (thr s i) = Idle \<longrightarrow> gil_last_holder s \<noteq> t))"

subsection \<open>Sequences of identities\<close>

text \<open>
  The number of adjacent equal pairs of a sequence, and the number of its elements that
  differ from their predecessor, the first one from \<open>h\<close>.
\<close>

fun adjacent_equal :: "'a list \<Rightarrow> nat" where
  "adjacent_equal (x # y # xs) = (if x = y then 1 else 0) + adjacent_equal (y # xs)"
| "adjacent_equal _ = 0"

fun switches :: "'a \<Rightarrow> 'a list \<Rightarrow> nat" where
  "switches h [] = 0"
| "switches h (p # ps) = (if p \<noteq> h then 1 else 0) + switches p ps"

subsection \<open>Concrete executions\<close>

text \<open>The static variables after the first \<open>create_gil\<close> of a process.\<close>

definition created :: gil_state where
  "created = \<lparr>gil_interval = 5000, gil_locked = 0, gil_switch_number = 0,
     gil_last_holder = NULL, gil_cond = {}, gil_mutex = None, switch_cond = {},
     switch_mutex = None, gil_drop_request = 0\<rparr>"

text \<open>
  Thread 0 takes the lock with identity \<open>Addr 1\<close> and returns; thread 1 calls \<open>take_gil\<close>
  with identity \<open>Addr 2\<close> and blocks in its timed wait.
\<close>

definition contended :: "(tid \<times> event) list" where
  "contended = (0, Call_take_gil (Addr 1)) # replicate 13 (0, Exec ok) @
               (1, Call_take_gil (Addr 2)) # replicate 7 (1, Exec ok)"

text \<open>
  Thread \<open>i\<close>, alone: \<open>take_gil(p)\<close> (13 statements), then \<open>drop_gil(p)\<close> (7 statements),
  nothing failing.
\<close>

definition take_drop :: "tid \<Rightarrow> ptr \<Rightarrow> (tid \<times> event) list" where
  "take_drop i p = (i, Call_take_gil p) # replicate 13 (i, Exec ok) @
                   (i, Call_drop_gil p) # replicate 7 (i, Exec ok)"

definition uncontended_take :: "(tid \<times> event) list" where
  "uncontended_take = replicate 13 (0, Exec ok)"

definition uncontended :: "(tid \<times> event) list" where
  "uncontended = take_drop 0 (Addr 1)"

text \<open>
  Thread 0 takes the lock with identity \<open>Addr 1\<close> and drops it; then thread 1 calls
  \<open>take_gil\<close> with identity \<open>Addr 2\<close>, finds the lock free and runs up to line 304, which
  it has not executed yet.
\<close>

definition second_take :: "(tid \<times> event) list" where
  "second_take = take_drop 0 (Addr 1) @ (1, Call_take_gil (Addr 2)) # replicate 6 (1, Exec ok)"

text \<open>
  Three calls of \<open>take_gil\<close>, each in the state of its first line.  Thread 0 calls it with
  identity \<open>Addr 1\<close> on the created lock; thread 0 calls it again with the same identity
  after it has taken and dropped the lock; thread 1 calls it with identity \<open>Addr 2\<close> on the
  created lock, and, before thread 1 executes a statement, thread 0 takes and drops the
  lock with identity \<open>Addr 1\<close>.
\<close>

definition first_call :: state where
  "first_call = the (run [(0, Call_take_gil (Addr 1))] (init created))"

definition second_call :: state where
  "second_call = the (run (take_drop 0 (Addr 1) @ [(0, Call_take_gil (Addr 1))]) (init created))"

definition other_call :: state where
  "other_call = the (run [(1, Call_take_gil (Addr 2))] (init created))"

definition overtaken :: "(tid \<times> event) list" where
  "overtaken = take_drop 0 (Addr 1) @ replicate 13 (1, Exec ok)"

text \<open>
  The static variables of a process, as the child of a fork inherits them; those of a
  process whose thread 0 has taken the lock once, and what \<open>recreate_gil\<close> makes of them.
\<close>

definition statics :: "state \<Rightarrow> gil_state" where
  "statics s = \<lparr>gil_interval = gil_interval s, gil_locked = gil_locked s,
     gil_switch_number = gil_switch_number s, gil_last_holder = gil_last_holder s,
     gil_cond = gil_cond s, gil_mutex = gil_mutex s, switch_cond = switch_cond s,
     switch_mutex = switch_mutex s, gil_drop_request = gil_drop_request s\<rparr>"

definition forked :: gil_state where
  "forked = \<lparr>gil_interval = 5000, gil_locked = 1, gil_switch_number = 1,
     gil_last_holder = Addr 1, gil_cond = {}, gil_mutex = None, switch_cond = {},
     switch_mutex = None, gil_drop_request = 0\<rparr>"

definition recreated :: gil_state where
  "recreated = \<lparr>gil_interval = 5000, gil_locked = 0, gil_switch_number = 1,
     gil_last_holder = NULL, gil_cond = {}, gil_mutex = None, switch_cond = {},
     switch_mutex = None, gil_drop_request = 0\<rparr>"

text \<open>The environment of a timed wait that returns \<open>ETIMEDOUT\<close>.\<close>

definition timeout :: env where
  "timeout = ok\<lparr>rc := ETIMEDOUT\<rparr>"

text \<open>
  Thread 0 holds the lock; thread 1 has called \<open>take_gil\<close> and is at line 288, about to
  save the switch number and wait.
\<close>

definition waiting :: "(tid \<times> event) list" where
  "waiting = (0, Call_take_gil (Addr 1)) # replicate 13 (0, Exec ok) @
             (1, Call_take_gil (Addr 2)) # replicate 5 (1, Exec ok)"

text \<open>
  Thread 0 calls \<open>drop_gil(NULL)\<close> in a process in which \<open>create_gil\<close> has never run.
\<close>

definition uninitialized_drop :: state where
  "uninitialized_drop = call_drop_gil 0 NULL (init static_init)"

text \<open>
  Thread 0 takes the lock with identity \<open>Addr 1\<close> and calls \<open>drop_gil(Addr 2)\<close>; the
  schedule ends before line 249.
\<close>

definition wrong_identity :: "(tid \<times> event) list" where
  "wrong_identity = (0, Call_take_gil (Addr 1)) # uncontended_take @
                    [(0, Call_drop_gil (Addr 2)), (0, Exec ok)]"


text \<open>
  Environments whose library calls leave 5, and 9, in \<open>errno\<close>; thread 0 takes and drops
  the lock with the first, so that its \<open>errno\<close> is 5 when it calls \<open>take_gil\<close> again.
\<close>

definition noisy :: env where
  "noisy = ok\<lparr>errno_out := 5\<rparr>"

definition loud :: env where
  "loud = ok\<lparr>errno_out := 9\<rparr>"

definition noisy_cycle :: "(tid \<times> event) list" where
  "noisy_cycle = (0, Call_take_gil (Addr 1)) # replicate 13 (0, Exec noisy) @
                 (0, Call_drop_gil (Addr 1)) # replicate 7 (0, Exec noisy) @
                 [(0, Call_take_gil (Addr 1))]"

text \<open>
  The thread state of thread \<open>j\<close> at address \<open>j + 1\<close>.  Thread 0 holds the lock; thread 1
  waits for it, times out, sets the drop request and waits again; thread 0 calls
  \<open>drop_gil\<close> with its own identity.  Then thread 0 releases the lock, signals thread 1,
  sees the drop request and blocks at line 265.  After that, either thread 1 takes the
  lock and signals \<open>switch_cond\<close>, and thread 0 returns; or the wait of thread 0 returns
  with no signal, and thread 0 returns.
\<close>

definition thread_state :: "tid \<Rightarrow> ptr" where
  "thread_state j = Addr (Suc j)"

definition contend_until_drop :: "(tid \<times> event) list" where
  "contend_until_drop =
     (0, Call_take_gil (Addr 1)) # replicate 13 (0, Exec ok) @
     (1, Call_take_gil (Addr 2)) # replicate 7 (1, Exec ok) @
     [(1, Exec timeout), (1, Exec ok), (1, Exec ok), (1, Exec ok), (1, Exec ok),
      (0, Call_drop_gil (Addr 1))]"

definition release_and_wait :: "(tid \<times> event) list" where
  "release_and_wait =
     replicate 4 (0, Exec ok) @ (0, Exec (ok\<lparr>woken := {1}\<rparr>)) # replicate 5 (0, Exec ok)"

definition handed_over :: "(tid \<times> event) list" where
  "handed_over =
     release_and_wait @ replicate 6 (1, Exec ok) @
     [(1, Exec (ok\<lparr>woken := {0}\<rparr>)), (1, Exec ok), (0, Exec ok), (0, Exec ok)]"

definition woken_spuriously :: "(tid \<times> event) list" where
  "woken_spuriously = release_and_wait @ [(0, Exec (ok\<lparr>spurious := True\<rparr>)), (0, Exec ok)]"

section \<open>Theorems\<close>

subsection \<open>The invariant holds in every reachable state\<close>

lemmas prim_defs = upd_def Py_FatalError_def call_take_gil_def call_drop_gil_def
  MUTEX_LOCK_gil_mutex_def MUTEX_UNLOCK_gil_mutex_def MUTEX_LOCK_switch_mutex_def
  MUTEX_UNLOCK_switch_mutex_def COND_SIGNAL_gil_cond_def COND_SIGNAL_switch_cond_def
  SET_GIL_DROP_REQUEST_def RESET_GIL_DROP_REQUEST_def PyEval_SetSwitchInterval_def
  PyEval_SignalAsyncExc_def

lemmas step_defs = step_def take_gil_def drop_gil_def prim_defs

lemmas inv_defs = gil_mutex_inv_def switch_mutex_inv_def owner_locked_def owner_unique_def
  locked_owner_def ready_free_def owner_last_holder_def tstate_not_NULL_def last_holder_set_def
  waiter_not_NULL_def

text \<open>A step of thread \<open>i\<close> leaves the variables of every other thread alone.\<close>

lemma step_thr_other:
  assumes "step i ev s = Some s'" and "j \<noteq> i"
  shows "thr s' j = thr s j"
proof (cases ev)
  case (Exec e)
  show ?thesis
    by (cases "pc (thr s i)";
        use assms Exec in \<open>clarsimp simp: step_defs split: if_splits\<close>)
qed (use assms in \<open>clarsimp simp: step_defs split: if_splits\<close>)+

text \<open>A thread that is not scheduled keeps its variables.\<close>

lemma run_unscheduled:
  "run sched s = Some s' \<Longrightarrow> unscheduled i sched \<Longrightarrow> thr s' i = thr s i"
proof (induction sched arbitrary: s)
  case Nil
  then show ?case by simp
next
  case (Cons a sched)
  obtain j ev where a: "a = (j, ev)" by (cases a)
  from Cons.prems(1) a obtain s1 where s1: "step j ev s = Some s1" and r: "run sched s1 = Some s'"
    by (auto split: option.splits)
  from Cons.prems(2) a have "j \<noteq> i" "unscheduled i sched" by simp_all
  with Cons.IH [OF r] step_thr_other [OF s1, of i] show ?case by simp
qed

text \<open>
  Each part of the invariant is kept by every step.  The parts are used at the running
  thread \<open>i\<close> and at the threads the goal names only, so that no quantifier is left when
  the code is unfolded line by line.
\<close>

lemma step_gil_mutex_inv:
  assumes "gil_inv s" and "step i ev s = Some s'"
  shows "gil_mutex_inv s'"
  unfolding gil_mutex_inv_def
proof (intro allI)
  fix j
  from assms(1) have facts:
    "(gil_mutex s = Some i) = gm_held (pc (thr s i))"
    "(gil_mutex s = Some j) = gm_held (pc (thr s j))"
    unfolding gil_inv_def inv_defs by blast+
  show "(gil_mutex s' = Some j) = gm_held (pc (thr s' j))"
  proof (cases ev)
    case (Exec e)
    show ?thesis
      by (cases "pc (thr s i)";
          use assms(2) Exec facts in \<open>clarsimp simp: step_defs split: if_splits\<close>)
  qed (use assms(2) facts in \<open>clarsimp simp: step_defs split: if_splits\<close>)+
qed

lemma step_switch_mutex_inv:
  assumes "gil_inv s" and "step i ev s = Some s'"
  shows "switch_mutex_inv s'"
  unfolding switch_mutex_inv_def
proof (intro allI)
  fix j
  from assms(1) have facts:
    "(switch_mutex s = Some i) = sm_held (pc (thr s i))"
    "(switch_mutex s = Some j) = sm_held (pc (thr s j))"
    unfolding gil_inv_def inv_defs by blast+
  show "(switch_mutex s' = Some j) = sm_held (pc (thr s' j))"
  proof (cases ev)
    case (Exec e)
    show ?thesis
      by (cases "pc (thr s i)";
          use assms(2) Exec facts in \<open>clarsimp simp: step_defs split: if_splits\<close>)
  qed (use assms(2) facts in \<open>clarsimp simp: step_defs split: if_splits\<close>)+
qed

lemma step_owner_locked:
  assumes "gil_inv s" and "step i ev s = Some s'"
  shows "owner_locked s'"
  unfolding owner_locked_def
proof (intro allI)
  fix j
  from assms(1) have facts:
    "owner (pc (thr s i)) \<longrightarrow> gil_locked s = 1"
    "owner (pc (thr s j)) \<longrightarrow> gil_locked s = 1"
    "pc (thr s i) = T_299 \<or> pc (thr s i) = T_302 \<longrightarrow> gil_locked s = 0"
    "j \<noteq> i \<longrightarrow> \<not> (owner (pc (thr s i)) \<and> owner (pc (thr s j)))"
    unfolding gil_inv_def inv_defs by blast+
  show "owner (pc (thr s' j)) \<longrightarrow> gil_locked s' = 1"
  proof (cases ev)
    case (Exec e)
    show ?thesis
      by (cases "pc (thr s i)";
          use assms(2) Exec facts in \<open>clarsimp simp: step_defs split: if_splits\<close>)
  qed (use assms(2) facts in \<open>clarsimp simp: step_defs split: if_splits\<close>)+
qed

lemma step_owner_unique:
  assumes "gil_inv s" and "step i ev s = Some s'"
  shows "owner_unique s'"
  unfolding owner_unique_def
proof (intro allI)
  fix j k
  from assms(1) have facts:
    "owner (pc (thr s j)) \<and> owner (pc (thr s k)) \<longrightarrow> k = j"
    "j \<noteq> i \<longrightarrow> \<not> (owner (pc (thr s i)) \<and> owner (pc (thr s j)))"
    "k \<noteq> i \<longrightarrow> \<not> (owner (pc (thr s i)) \<and> owner (pc (thr s k)))"
    "owner (pc (thr s i)) \<longrightarrow> gil_locked s = 1"
    "owner (pc (thr s j)) \<longrightarrow> gil_locked s = 1"
    "owner (pc (thr s k)) \<longrightarrow> gil_locked s = 1"
    "pc (thr s i) = T_299 \<or> pc (thr s i) = T_302 \<longrightarrow> gil_locked s = 0"
    unfolding gil_inv_def inv_defs by blast+
  show "owner (pc (thr s' j)) \<and> owner (pc (thr s' k)) \<longrightarrow> j = k"
  proof (cases ev)
    case (Exec e)
    show ?thesis
      by (cases "pc (thr s i)";
          use assms(2) Exec facts in \<open>clarsimp simp: step_defs split: if_splits\<close>)
  qed (use assms(2) facts in \<open>clarsimp simp: step_defs split: if_splits\<close>)+
qed

lemma step_locked_owner:
  assumes "gil_inv s" and "step i ev s = Some s'"
  shows "locked_owner s'"
proof -
  from assms(1) obtain k where k: "gil_locked s = 0 \<or> owner (pc (thr s k))"
    unfolding gil_inv_def inv_defs by blast
  from assms(1) have facts:
    "k \<noteq> i \<longrightarrow> \<not> (owner (pc (thr s i)) \<and> owner (pc (thr s k)))"
    unfolding gil_inv_def inv_defs by blast+
  have "gil_locked s' = 0 \<or> owner (pc (thr s' i)) \<or> owner (pc (thr s' k))"
  proof (cases ev)
    case (Exec e)
    show ?thesis
      by (cases "pc (thr s i)";
          use assms(2) Exec k facts in \<open>clarsimp simp: step_defs split: if_splits\<close>; auto)
  qed (use assms(2) k facts in \<open>clarsimp simp: step_defs split: if_splits\<close>; auto)+
  then show ?thesis
    unfolding locked_owner_def by blast
qed

lemma step_ready_free:
  assumes "gil_inv s" and "step i ev s = Some s'"
  shows "ready_free s'"
  unfolding ready_free_def
proof (intro allI)
  fix j
  from assms(1) have facts:
    "pc (thr s i) = T_299 \<or> pc (thr s i) = T_302 \<longrightarrow> gil_locked s = 0"
    "pc (thr s j) = T_299 \<or> pc (thr s j) = T_302 \<longrightarrow> gil_locked s = 0"
    "(gil_mutex s = Some i) = gm_held (pc (thr s i))"
    "(gil_mutex s = Some j) = gm_held (pc (thr s j))"
    unfolding gil_inv_def inv_defs by blast+
  show "pc (thr s' j) = T_299 \<or> pc (thr s' j) = T_302 \<longrightarrow> gil_locked s' = 0"
  proof (cases ev)
    case (Exec e)
    show ?thesis
      by (cases "pc (thr s i)";
          use assms(2) Exec facts in \<open>clarsimp simp: step_defs split: if_splits\<close>; auto)
  qed (use assms(2) facts in \<open>clarsimp simp: step_defs split: if_splits\<close>; auto)+
qed

lemma step_owner_last_holder:
  assumes "gil_inv s" and "step i ev s = Some s'"
  shows "owner_last_holder s'"
  unfolding owner_last_holder_def
proof (intro allI)
  fix j
  from assms(1) have facts:
    "owner (pc (thr s i)) \<and> pc (thr s i) \<noteq> T_304 \<longrightarrow> take_tstate (thr s i) = gil_last_holder s"
    "owner (pc (thr s j)) \<and> pc (thr s j) \<noteq> T_304 \<longrightarrow> take_tstate (thr s j) = gil_last_holder s"
    "j \<noteq> i \<longrightarrow> \<not> (owner (pc (thr s i)) \<and> owner (pc (thr s j)))"
    unfolding gil_inv_def inv_defs by blast+
  show "owner (pc (thr s' j)) \<and> pc (thr s' j) \<noteq> T_304 \<longrightarrow> take_tstate (thr s' j) = gil_last_holder s'"
  proof (cases ev)
    case (Exec e)
    show ?thesis
      by (cases "pc (thr s i)";
          use assms(2) Exec facts in \<open>clarsimp simp: step_defs split: if_splits\<close>)
  qed (use assms(2) facts in \<open>clarsimp simp: step_defs split: if_splits\<close>)+
qed

lemma step_tstate_not_NULL:
  assumes "gil_inv s" and "step i ev s = Some s'"
  shows "tstate_not_NULL s'"
  unfolding tstate_not_NULL_def
proof (intro allI)
  fix j
  from assms(1) have facts:
    "pc (thr s i) \<noteq> Idle \<and> pc (thr s i) \<noteq> T_274 \<longrightarrow> take_tstate (thr s i) \<noteq> NULL"
    "pc (thr s j) \<noteq> Idle \<and> pc (thr s j) \<noteq> T_274 \<longrightarrow> take_tstate (thr s j) \<noteq> NULL"
    unfolding gil_inv_def inv_defs by blast+
  show "pc (thr s' j) \<noteq> Idle \<and> pc (thr s' j) \<noteq> T_274 \<longrightarrow> take_tstate (thr s' j) \<noteq> NULL"
  proof (cases ev)
    case (Exec e)
    show ?thesis
      by (cases "pc (thr s i)";
          use assms(2) Exec facts in \<open>clarsimp simp: step_defs split: if_splits\<close>)
  qed (use assms(2) facts in \<open>clarsimp simp: step_defs split: if_splits\<close>)+
qed

lemma step_last_holder_set:
  assumes "gil_inv s" and "step i ev s = Some s'"
  shows "last_holder_set s'"
  unfolding last_holder_set_def
proof (intro allI)
  fix j
  from assms(1) have facts:
    "gil_last_holder s = NULL \<longrightarrow> before_304 (pc (thr s i))"
    "gil_last_holder s = NULL \<longrightarrow> before_304 (pc (thr s j))"
    "pc (thr s i) \<noteq> Idle \<and> pc (thr s i) \<noteq> T_274 \<longrightarrow> take_tstate (thr s i) \<noteq> NULL"
    unfolding gil_inv_def inv_defs by blast+
  show "gil_last_holder s' = NULL \<longrightarrow> before_304 (pc (thr s' j))"
  proof (cases ev)
    case (Exec e)
    show ?thesis
      by (cases "pc (thr s i)";
          use assms(2) Exec facts in \<open>clarsimp simp: step_defs split: if_splits\<close>)
  qed (use assms(2) facts in \<open>clarsimp simp: step_defs split: if_splits\<close>)+
qed

lemma step_waiter_not_NULL:
  assumes "gil_inv s" and "step i ev s = Some s'"
  shows "waiter_not_NULL s'"
  unfolding waiter_not_NULL_def
proof (intro allI)
  fix j
  from assms(1) have facts:
    "pc (thr s i) = D_265 \<or> pc (thr s i) = D_265_blocked \<longrightarrow> drop_tstate (thr s i) \<noteq> NULL"
    "pc (thr s j) = D_265 \<or> pc (thr s j) = D_265_blocked \<longrightarrow> drop_tstate (thr s j) \<noteq> NULL"
    "gil_last_holder s = NULL \<longrightarrow> before_304 (pc (thr s i))"
    unfolding gil_inv_def inv_defs by blast+
  show "pc (thr s' j) = D_265 \<or> pc (thr s' j) = D_265_blocked \<longrightarrow> drop_tstate (thr s' j) \<noteq> NULL"
  proof (cases ev)
    case (Exec e)
    show ?thesis
      by (cases "pc (thr s i)";
          use assms(2) Exec facts in \<open>clarsimp simp: step_defs split: if_splits\<close>; auto)
  qed (use assms(2) facts in \<open>clarsimp simp: step_defs split: if_splits\<close>)+
qed

lemma step_gil_inv:
  assumes "gil_inv s" and "step i ev s = Some s'"
  shows "gil_inv s'"
  unfolding gil_inv_def
  using step_gil_mutex_inv [OF assms] step_switch_mutex_inv [OF assms] step_owner_locked [OF assms]
    step_owner_unique [OF assms] step_locked_owner [OF assms] step_ready_free [OF assms]
    step_owner_last_holder [OF assms] step_tstate_not_NULL [OF assms]
    step_last_holder_set [OF assms] step_waiter_not_NULL [OF assms]
  by simp

lemma run_gil_inv:
  "gil_inv s \<Longrightarrow> run sched s = Some s' \<Longrightarrow> gil_inv s'"
proof (induction sched arbitrary: s)
  case Nil
  then show ?case by simp
next
  case (Cons a sched)
  obtain i ev where a: "a = (i, ev)" by (cases a)
  from Cons.prems(2) a obtain s1 where s1: "step i ev s = Some s1" and r: "run sched s1 = Some s'"
    by (auto split: option.splits)
  from step_gil_inv [OF Cons.prems(1) s1] r show ?case
    by (rule Cons.IH)
qed

lemma init_gil_inv:
  assumes "create_gil r1 r2 r3 r4 g = Inr g0"
  shows "gil_inv (init g0)"
  using assms
  by (auto simp: create_gil_def gil_inv_def inv_defs init_def idle_thread_def split: if_splits)

lemma reachable_gil_inv:
  assumes "create_gil r1 r2 r3 r4 g = Inr g0" and "run sched (init g0) = Some s"
  shows "gil_inv s"
  using run_gil_inv [OF init_gil_inv [OF assms(1)] assms(2)] .

subsection \<open>Evaluation of concrete executions\<close>

lemmas eval_defs = numeral_eq_Suc init_def idle_thread_def ok_def step_defs unblocks_def
  INTERVAL_def ETIMEDOUT_def

lemma created_eq: "create_gil 0 0 0 0 static_init = Inr created"
  by (simp add: create_gil_def static_init_def created_def DEFAULT_INTERVAL_def)

lemma contended_run:
  "\<exists>s. run contended (init created) = Some s \<and> pc (thr s 0) = Running \<and>
     pc (thr s 1) = T_289_blocked \<and> gil_locked s = 1 \<and> gil_last_holder s = Addr 1 \<and>
     take_tstate (thr s 0) = Addr 1"
  by (simp add: contended_def created_def eval_defs)

subsection \<open>Mutual exclusion\<close>

lemma second_take_run:
  "run second_take (init created) \<noteq> None \<and>
   gil_locked (the (run second_take (init created))) = 1 \<and>
   pc (thr (the (run second_take (init created))) 0) = Idle \<and>
   pc (thr (the (run second_take (init created))) 1) = T_304 \<and>
   take_tstate (thr (the (run second_take (init created))) 1) = Addr 2 \<and>
   gil_last_holder (the (run second_take (init created))) = Addr 1"
  by code_simp

text \<open>
  C1, as amended.  In every state a process reaches after \<open>create_gil\<close>, whatever the
  schedule and the environment: at most one thread is between its return from \<open>take_gil\<close>
  and its next call of \<open>drop_gil\<close>; at most one thread is the logical owner (from its
  assignment \<open>gil_locked = 1\<close> at line 302 to its assignment \<open>gil_locked = 0\<close> at line
  253); \<open>gil_locked\<close> is 1 exactly when there is an owner, and 0 otherwise; and the
  owner's identity is \<open>gil_last_holder\<close> from the moment the owner has executed lines
  304--307, in particular all the time between its return from \<open>take_gil\<close> and its
  release.  Not before: an owner that has executed line 302 and not yet line 304 holds
  \<open>gil_mutex\<close> and \<open>switch_mutex\<close>, and \<open>gil_last_holder\<close> is still the holder before it.
\<close>

theorem mutual_exclusion:
  assumes "create_gil r1 r2 r3 r4 g = Inr g0" and "run sched (init g0) = Some s"
  shows "(pc (thr s i) = Running \<and> pc (thr s j) = Running \<longrightarrow> i = j) \<and>
         (owner (pc (thr s i)) \<and> owner (pc (thr s j)) \<longrightarrow> i = j) \<and>
         (gil_locked s = 1) = (\<exists>k. owner (pc (thr s k))) \<and>
         (gil_locked s = 1 \<or> gil_locked s = 0) \<and>
         (owner (pc (thr s i)) \<and> pc (thr s i) \<noteq> T_304 \<longrightarrow>
            gil_last_holder s = take_tstate (thr s i)) \<and>
         (pc (thr s i) = T_304 \<longrightarrow> gil_mutex s = Some i \<and> switch_mutex s = Some i)"
proof -
  have inv: "gil_inv s"
    using assms by (rule reachable_gil_inv)
  then have uniq: "\<And>a b. owner (pc (thr s a)) \<Longrightarrow> owner (pc (thr s b)) \<Longrightarrow> a = b"
    and locked: "\<And>a. owner (pc (thr s a)) \<Longrightarrow> gil_locked s = 1"
    and some: "gil_locked s = 0 \<or> (\<exists>k. owner (pc (thr s k)))"
    and holder: "\<And>a. owner (pc (thr s a)) \<Longrightarrow> pc (thr s a) \<noteq> T_304 \<Longrightarrow>
                   take_tstate (thr s a) = gil_last_holder s"
    and gm: "(gil_mutex s = Some i) = gm_held (pc (thr s i))"
    and sm: "(switch_mutex s = Some i) = sm_held (pc (thr s i))"
    unfolding gil_inv_def inv_defs by blast+
  have "pc (thr s i) = Running \<and> pc (thr s j) = Running \<longrightarrow> i = j"
    using uniq [of i j] by simp
  moreover have "owner (pc (thr s i)) \<and> owner (pc (thr s j)) \<longrightarrow> i = j"
    using uniq by blast
  moreover have "(gil_locked s = 1) = (\<exists>k. owner (pc (thr s k)))"
    using locked some by auto
  moreover have "gil_locked s = 1 \<or> gil_locked s = 0"
    using locked some by auto
  moreover have "owner (pc (thr s i)) \<and> pc (thr s i) \<noteq> T_304 \<longrightarrow>
      gil_last_holder s = take_tstate (thr s i)"
    using holder [of i] by simp
  moreover have "pc (thr s i) = T_304 \<longrightarrow> gil_mutex s = Some i \<and> switch_mutex s = Some i"
    using gm sm by simp
  ultimately show ?thesis by blast
qed

theorem mutual_exclusion_witness:
  "(\<exists>s. create_gil 0 0 0 0 static_init = Inr created \<and> run contended (init created) = Some s \<and>
     pc (thr s 0) = Running \<and> pc (thr s 1) \<noteq> Running \<and> gil_locked s = 1 \<and>
     gil_last_holder s = take_tstate (thr s 0)) \<and>
   run second_take (init created) \<noteq> None \<and>
   pc (thr (the (run second_take (init created))) 1) = T_304 \<and>
   pc (thr (the (run second_take (init created))) 0) \<noteq> Running \<and>
   gil_locked (the (run second_take (init created))) = 1 \<and>
   gil_mutex (the (run second_take (init created))) = Some 1 \<and>
   switch_mutex (the (run second_take (init created))) = Some 1"
proof -
  obtain s where s: "run contended (init created) = Some s" "pc (thr s 0) = Running"
    using contended_run by blast
  have own: "owner (pc (thr s 0))"
    using s(2) by simp
  note me = mutual_exclusion [OF created_eq s(1), of 0 1]
    mutual_exclusion [OF created_eq s(1), of 0 0]
  have "pc (thr s 1) \<noteq> Running"
    using me(1) s(2) by auto
  moreover have "gil_locked s = 1"
    using me(2) own by blast
  moreover have "gil_last_holder s = take_tstate (thr s 0)"
    using me(2) own s(2) by simp
  ultimately have first: "\<exists>s. create_gil 0 0 0 0 static_init = Inr created \<and>
      run contended (init created) = Some s \<and> pc (thr s 0) = Running \<and>
      pc (thr s 1) \<noteq> Running \<and> gil_locked s = 1 \<and> gil_last_holder s = take_tstate (thr s 0)"
    using created_eq s by blast
  let ?s = "the (run second_take (init created))"
  have r: "run second_take (init created) = Some ?s" and at: "pc (thr ?s 1) = T_304"
    using second_take_run by auto
  have own1: "owner (pc (thr ?s 1))"
    using at by simp
  note me1 = mutual_exclusion [OF created_eq r, of 1 0]
  have nn: "run second_take (init created) \<noteq> None"
    using second_take_run by blast
  have "pc (thr ?s 0) \<noteq> Running"
    using me1 own1 by auto
  moreover have "gil_locked ?s = 1"
    using me1 own1 by blast
  moreover have "gil_mutex ?s = Some 1" "switch_mutex ?s = Some 1"
    using me1 at by blast+
  ultimately show ?thesis
    using first nn at by blast
qed

text \<open>
  C1 as stated fails in the state that \<open>second_take\<close> reaches: the lock is held
  (\<open>gil_locked = 1\<close>), thread 1 is its owner, at line 304, with identity \<open>Addr 2\<close>,
  thread 0 is outside the two functions and no other thread has run, and
  \<open>gil_last_holder\<close> is \<open>Addr 1\<close>, the identity of the holder before.  No thread is
  between a return from \<open>take_gil\<close> and a call of \<open>drop_gil\<close> either.
\<close>

theorem mutual_exclusion_counterexample:
  "create_gil 0 0 0 0 static_init = Inr created \<and>
   run second_take (init created) \<noteq> None \<and>
   gil_locked (the (run second_take (init created))) = 1 \<and>
   pc (thr (the (run second_take (init created))) 0) = Idle \<and>
   pc (thr (the (run second_take (init created))) 1) = T_304 \<and>
   owner (pc (thr (the (run second_take (init created))) 1)) \<and>
   take_tstate (thr (the (run second_take (init created))) 1) = Addr 2 \<and>
   gil_last_holder (the (run second_take (init created))) = Addr 1 \<and>
   gil_last_holder (the (run second_take (init created))) \<noteq>
     take_tstate (thr (the (run second_take (init created))) 1)"
  using created_eq second_take_run by simp

subsection \<open>Switch counting\<close>

text \<open>Only lines 304--307 change \<open>gil_last_holder\<close> and \<open>gil_switch_number\<close>.\<close>

lemma step_switch_number:
  assumes "step j ev s = Some s'"
  shows "if pc (thr s j) = T_304
         then gil_last_holder s' = take_tstate (thr s j) \<and>
              gil_switch_number s' =
                (if take_tstate (thr s j) \<noteq> gil_last_holder s then gil_switch_number s + 1
                 else gil_switch_number s)
         else gil_last_holder s' = gil_last_holder s \<and> gil_switch_number s' = gil_switch_number s"
proof (cases ev)
  case (Exec e)
  show ?thesis
    by (cases "pc (thr s j)";
        use assms Exec in \<open>clarsimp simp: step_defs split: if_splits\<close>)
qed (use assms in \<open>clarsimp simp: step_defs split: if_splits\<close>)+

lemma step_pc_take:
  assumes "step j ev s = Some s'" and "j \<noteq> i \<or> \<not> enters ev"
  shows "(take_before_304 (pc (thr s i)) \<and> \<not> (j = i \<and> pc (thr s i) = T_304) \<longrightarrow> take_before_304 (pc (thr s' i))) \<and>
         (j = i \<and> pc (thr s i) = T_304 \<longrightarrow> take_after_304 (pc (thr s' i))) \<and>
         (take_after_304 (pc (thr s i)) \<longrightarrow> take_after_304 (pc (thr s' i))) \<and>
         take_tstate (thr s' i) = take_tstate (thr s i)"
proof (cases "j = i")
  case False
  with step_thr_other [OF assms(1), of i] show ?thesis by simp
next
  case True
  show ?thesis
  proof (cases ev)
    case (Exec e)
    show ?thesis
      by (cases "pc (thr s i)";
          use assms True Exec in \<open>clarsimp simp: step_defs split: if_splits\<close>)
  qed (use assms True in \<open>clarsimp simp: step_defs enters_def split: if_splits\<close>)+
qed

lemma held_no_acquisition:
  assumes "gil_inv s" and "take_after_304 (pc (thr s i))"
  shows "pc (thr s j) \<noteq> T_304"
proof
  assume "pc (thr s j) = T_304"
  moreover have "owner (pc (thr s i))" "pc (thr s i) \<noteq> T_304"
    using assms(2) by (cases "pc (thr s i)"; simp)+
  moreover have "\<And>a b. owner (pc (thr s a)) \<Longrightarrow> owner (pc (thr s b)) \<Longrightarrow> a = b"
    using assms(1) unfolding gil_inv_def inv_defs by blast
  ultimately show False by (metis owner.simps(1))
qed

lemma run_after_304:
  "gil_inv s \<Longrightarrow> take_after_304 (pc (thr s i)) \<Longrightarrow> run sched s = Some s' \<Longrightarrow> stays i sched \<Longrightarrow>
   gil_last_holder s' = gil_last_holder s \<and> gil_switch_number s' = gil_switch_number s \<and>
   acquisitions sched s = [] \<and> take_tstate (thr s' i) = take_tstate (thr s i)"
proof (induction sched arbitrary: s)
  case Nil
  then show ?case by simp
next
  case (Cons a sched)
  obtain j ev where a: "a = (j, ev)" by (cases a)
  from Cons.prems(3) a obtain s1 where s1: "step j ev s = Some s1" and r: "run sched s1 = Some s'"
    by (auto split: option.splits)
  from Cons.prems(4) a have st: "j \<noteq> i \<or> \<not> enters ev" "stays i sched" by simp_all
  have no: "pc (thr s j) \<noteq> T_304"
    using held_no_acquisition [OF Cons.prems(1,2)] .
  have same: "gil_last_holder s1 = gil_last_holder s" "gil_switch_number s1 = gil_switch_number s"
    using step_switch_number [OF s1] no by simp_all
  have after: "take_after_304 (pc (thr s1 i))" "take_tstate (thr s1 i) = take_tstate (thr s i)"
    using step_pc_take [OF s1 st(1)] Cons.prems(2) by simp_all
  from Cons.IH [OF step_gil_inv [OF Cons.prems(1) s1] after(1) r st(2)] same after(2) a s1 no
  show ?case by simp
qed

lemma step_at_304:
  assumes "step i ev s = Some s'" and "pc (thr s i) = T_304"
  shows "\<exists>e. ev = Exec e"
  using assms by (cases ev) (auto simp: step_def split: if_splits)

lemma run_before_304:
  "gil_inv s \<Longrightarrow> take_before_304 (pc (thr s i)) \<Longrightarrow> run sched s = Some s' \<Longrightarrow> stays i sched \<Longrightarrow>
   pc (thr s' i) = Running \<Longrightarrow>
   \<exists>sched1 e sched2 s1 s2.
     sched = sched1 @ (i, Exec e) # sched2 \<and>
     run sched1 s = Some s1 \<and> pc (thr s1 i) = T_304 \<and>
     step i (Exec e) s1 = Some s2 \<and> run sched2 s2 = Some s' \<and>
     filter (\<lambda>a. fst a = i) (acquisitions sched s) = [(i, take_tstate (thr s i))] \<and>
     gil_last_holder s' = take_tstate (thr s i) \<and>
     gil_switch_number s' =
       (if take_tstate (thr s i) \<noteq> gil_last_holder s1 then gil_switch_number s1 + 1
        else gil_switch_number s1)"
proof (induction sched arbitrary: s)
  case Nil
  then show ?case by auto
next
  case (Cons a sched)
  obtain j ev where a: "a = (j, ev)" by (cases a)
  from Cons.prems(3) a obtain sa where sa: "step j ev s = Some sa" and r: "run sched sa = Some s'"
    by (auto split: option.splits)
  from Cons.prems(4) a have st: "j \<noteq> i \<or> \<not> enters ev" "stays i sched" by simp_all
  note pcs = step_pc_take [OF sa st(1)]
  note inv = step_gil_inv [OF Cons.prems(1) sa]
  show ?case
  proof (cases "j = i \<and> pc (thr s i) = T_304")
    case True
    then obtain e where e: "ev = Exec e"
      using step_at_304 [of i ev s sa] sa by blast
    have after: "take_after_304 (pc (thr sa i))" "take_tstate (thr sa i) = take_tstate (thr s i)"
      using pcs True by simp_all
    note rest = run_after_304 [OF inv after(1) r st(2)]
    note here = step_switch_number [OF sa]
    have "a # sched = [] @ (i, Exec e) # sched" "run [] s = Some s"
      using a True e by simp_all
    moreover have "step i (Exec e) s = Some sa"
      using sa True e by simp
    moreover have "filter (\<lambda>a. fst a = i) (acquisitions (a # sched) s) = [(i, take_tstate (thr s i))]"
      using a sa True rest by simp
    moreover have "gil_last_holder s' = take_tstate (thr s i)"
      using rest here True by simp
    moreover have "gil_switch_number s' =
       (if take_tstate (thr s i) \<noteq> gil_last_holder s then gil_switch_number s + 1
        else gil_switch_number s)"
      using rest here True by simp
    ultimately show ?thesis
      using True r by blast
  next
    case False
    then have before: "take_before_304 (pc (thr sa i))"
      and same: "take_tstate (thr sa i) = take_tstate (thr s i)"
      using pcs Cons.prems(2) by simp_all
    from Cons.IH [OF inv before r st(2) Cons.prems(5)]
    obtain sched1 e sched2 s1 s2 where ih:
      "sched = sched1 @ (i, Exec e) # sched2" "run sched1 sa = Some s1" "pc (thr s1 i) = T_304"
      "step i (Exec e) s1 = Some s2" "run sched2 s2 = Some s'"
      "filter (\<lambda>a. fst a = i) (acquisitions sched sa) = [(i, take_tstate (thr sa i))]"
      "gil_last_holder s' = take_tstate (thr sa i)"
      "gil_switch_number s' =
         (if take_tstate (thr sa i) \<noteq> gil_last_holder s1 then gil_switch_number s1 + 1
          else gil_switch_number s1)"
      by blast
    have "a # sched = (a # sched1) @ (i, Exec e) # sched2"
      using ih(1) by simp
    moreover have "run (a # sched1) s = Some s1"
      using a sa ih(2) by simp
    moreover have "filter (\<lambda>a. fst a = i) (acquisitions (a # sched) s) = [(i, take_tstate (thr s i))]"
      using a sa False ih(6) same by auto
    ultimately show ?thesis
      using ih(3,4,5,7,8) same by metis
  qed
qed

lemma stays_uncontended_take: "stays 0 uncontended_take"
  by (simp add: uncontended_take_def numeral_eq_Suc enters_def)

lemma acquisitions_append:
  "run sched s = Some s' \<Longrightarrow> acquisitions (sched @ rest) s = acquisitions sched s @ acquisitions rest s'"
  by (induction sched arbitrary: s) (auto split: option.splits)

lemma run_switches:
  "run sched s = Some s' \<Longrightarrow>
   gil_switch_number s' =
     gil_switch_number s + of_nat (switches (gil_last_holder s) (map snd (acquisitions sched s))) \<and>
   gil_last_holder s' = last (gil_last_holder s # map snd (acquisitions sched s))"
proof (induction sched arbitrary: s)
  case Nil
  then show ?case by simp
next
  case (Cons a sched)
  obtain j ev where a: "a = (j, ev)" by (cases a)
  from Cons.prems a obtain s1 where s1: "step j ev s = Some s1" and r: "run sched s1 = Some s'"
    by (auto split: option.splits)
  note here = step_switch_number [OF s1]
  note ih = Cons.IH [OF r]
  show ?case
  proof (cases "pc (thr s j) = T_304")
    case True
    with here ih a s1 show ?thesis by (simp add: add.assoc)
  next
    case False
    with here ih a s1 show ?thesis by simp
  qed
qed

lemma stays_append: "stays i (a @ b) = (stays i a \<and> stays i b)"
  by (induction a) auto

lemma filter_only_last:
  assumes "filter (\<lambda>a. fst a = i) (xs @ [(i, x)]) = [(i, t)]"
  shows "x = t \<and> filter (\<lambda>a. fst a \<noteq> i) (xs @ [(i, x)]) = xs"
proof -
  from assms have "filter (\<lambda>a. fst a = i) xs = []" "x = t"
    by (simp_all add: append_eq_Cons_conv)
  then have "\<forall>a \<in> set xs. fst a \<noteq> i"
    by (simp add: filter_empty_conv)
  then have "filter (\<lambda>a. fst a \<noteq> i) xs = xs"
    by simp
  with \<open>x = t\<close> show ?thesis by simp
qed

lemma first_call_eval:
  "run [(0, Call_take_gil (Addr 1))] (init created) \<noteq> None \<and>
   pc (thr first_call 0) = T_274 \<and> take_tstate (thr first_call 0) = Addr 1 \<and>
   gil_last_holder first_call = NULL \<and> gil_switch_number first_call = 0 \<and>
   run uncontended_take first_call \<noteq> None \<and>
   pc (thr (the (run uncontended_take first_call)) 0) = Running \<and>
   other_acquisitions 0 uncontended_take first_call = []"
  by code_simp

lemma second_call_eval:
  "run (take_drop 0 (Addr 1) @ [(0, Call_take_gil (Addr 1))]) (init created) \<noteq> None \<and>
   pc (thr second_call 0) = T_274 \<and> take_tstate (thr second_call 0) = Addr 1 \<and>
   gil_last_holder second_call = Addr 1 \<and> gil_switch_number second_call = 1 \<and>
   run uncontended_take second_call \<noteq> None \<and>
   pc (thr (the (run uncontended_take second_call)) 0) = Running \<and>
   other_acquisitions 0 uncontended_take second_call = []"
  by code_simp

lemma other_call_eval:
  "run [(1, Call_take_gil (Addr 2))] (init created) \<noteq> None \<and>
   pc (thr other_call 1) = T_274 \<and> take_tstate (thr other_call 1) = Addr 2 \<and>
   gil_last_holder other_call = NULL \<and> gil_switch_number other_call = 0 \<and>
   run overtaken other_call \<noteq> None \<and> stays 1 overtaken \<and>
   pc (thr (the (run overtaken other_call)) 1) = Running \<and>
   other_acquisitions 1 overtaken other_call = [Addr 1]"
  by code_simp

text \<open>
  C3.  Take a call \<open>take_gil(t)\<close> by thread \<open>i\<close> that returns, in any state a created lock
  can reach and with any schedule of the other threads, from the state \<open>s\<close> of its first
  line to a state \<open>s'\<close> after its return.  The call executes lines 304--307 exactly once,
  after every execution of them by another thread during the call.  The previous last
  holder is the identity of the last of those other executions, and \<open>gil_last_holder\<close> of
  \<open>s\<close> when there is none.  At the return \<open>gil_last_holder\<close> is \<open>t\<close>, and
  \<open>gil_switch_number\<close> is its value in \<open>s\<close>, plus what the other threads' executions
  added, plus one when \<open>t\<close> differs from the previous last holder and plus nothing when
  \<open>t\<close> is the previous last holder (\<open>unsigned long\<close> arithmetic).  In particular, when no
  other thread gets the lock during the call, the counter at the return is one more than
  at the call if \<open>t\<close> differs from \<open>gil_last_holder\<close> at the call, and the same if not.
  In detail: the state \<open>s1\<close> in which the call executes line 304 has the previous last
  holder and the counter of \<open>s\<close> plus the others' additions; the step to \<open>s2\<close> sets the
  holder and increments, or changes neither; nothing changes them from \<open>s2\<close> to \<open>s'\<close>.
\<close>

theorem take_gil_switch_counting:
  assumes "create_gil r1 r2 r3 r4 g = Inr g0" and "run sched0 (init g0) = Some s"
    and "pc (thr s i) = T_274" and "run sched s = Some s'" and "stays i sched"
    and "pc (thr s' i) = Running"
  shows "acquisitions sched s =
           filter (\<lambda>a. fst a \<noteq> i) (acquisitions sched s) @ [(i, take_tstate (thr s i))] \<and>
         gil_last_holder s' = take_tstate (thr s i) \<and>
         gil_switch_number s' =
           gil_switch_number s +
           of_nat (switches (gil_last_holder s) (other_acquisitions i sched s)) +
           (if take_tstate (thr s i) \<noteq> previous_holder i sched s then 1 else 0) \<and>
         (\<exists>sched1 e sched2 s1 s2.
            sched = sched1 @ (i, Exec e) # sched2 \<and>
            run sched1 s = Some s1 \<and> pc (thr s1 i) = T_304 \<and>
            step i (Exec e) s1 = Some s2 \<and> run sched2 s2 = Some s' \<and>
            gil_last_holder s1 = previous_holder i sched s \<and>
            gil_switch_number s1 =
              gil_switch_number s +
              of_nat (switches (gil_last_holder s) (other_acquisitions i sched s)) \<and>
            gil_last_holder s2 = take_tstate (thr s i) \<and>
            gil_switch_number s2 =
              (if take_tstate (thr s i) \<noteq> gil_last_holder s1 then gil_switch_number s1 + 1
               else gil_switch_number s1) \<and>
            gil_last_holder s' = gil_last_holder s2 \<and>
            gil_switch_number s' = gil_switch_number s2)"
proof -
  let ?t = "take_tstate (thr s i)"
  have inv: "gil_inv s"
    using assms(1,2) by (rule reachable_gil_inv)
  have before: "take_before_304 (pc (thr s i))"
    using assms(3) by simp
  from run_before_304 [OF inv before assms(4,5,6)]
  obtain sched1 e sched2 s1 s2 where d:
    "sched = sched1 @ (i, Exec e) # sched2" "run sched1 s = Some s1" "pc (thr s1 i) = T_304"
    "step i (Exec e) s1 = Some s2" "run sched2 s2 = Some s'"
    "filter (\<lambda>a. fst a = i) (acquisitions sched s) = [(i, ?t)]"
    by blast
  have inv1: "gil_inv s1"
    using inv d(2) by (rule run_gil_inv)
  have inv2: "gil_inv s2"
    using inv1 d(4) by (rule step_gil_inv)
  have st: "stays i sched2"
    using assms(5) d(1) by (simp add: stays_append)
  have after: "take_after_304 (pc (thr s2 i))"
    using step_pc_take [OF d(4), of i] d(3) by (simp add: enters_def)
  note rest = run_after_304 [OF inv2 after d(5) st]
  have acq: "acquisitions sched s = acquisitions sched1 s @ [(i, take_tstate (thr s1 i))]"
    using acquisitions_append [OF d(2), of "(i, Exec e) # sched2"] d(1,3,4) rest by simp
  from d(6) have only: "take_tstate (thr s1 i) = ?t"
    "filter (\<lambda>a. fst a \<noteq> i) (acquisitions sched s) = acquisitions sched1 s"
    unfolding acq using filter_only_last [of i "acquisitions sched1 s" "take_tstate (thr s1 i)" ?t]
    by simp_all
  have oth: "other_acquisitions i sched s = map snd (acquisitions sched1 s)"
    using only(2) by (simp add: other_acquisitions_def)
  note sw = run_switches [OF d(2)]
  have s1: "gil_last_holder s1 = previous_holder i sched s"
    "gil_switch_number s1 =
       gil_switch_number s + of_nat (switches (gil_last_holder s) (other_acquisitions i sched s))"
    using sw oth by (simp_all add: previous_holder_def)
  note here = step_switch_number [OF d(4)]
  have s2: "gil_last_holder s2 = ?t"
    "gil_switch_number s2 =
       (if ?t \<noteq> gil_last_holder s1 then gil_switch_number s1 + 1 else gil_switch_number s1)"
    using here d(3) only(1) by simp_all
  have s': "gil_last_holder s' = gil_last_holder s2" "gil_switch_number s' = gil_switch_number s2"
    using rest by simp_all
  have "acquisitions sched s =
      filter (\<lambda>a. fst a \<noteq> i) (acquisitions sched s) @ [(i, ?t)]"
    using acq only by simp
  moreover have "gil_last_holder s' = ?t"
    using s' s2 by simp
  moreover have "gil_switch_number s' =
      gil_switch_number s + of_nat (switches (gil_last_holder s) (other_acquisitions i sched s)) +
      (if ?t \<noteq> previous_holder i sched s then 1 else 0)"
    using s' s2 s1 by simp
  ultimately show ?thesis
    using d(1,2,3,4,5) s1 s2 s' by blast
qed

text \<open>
  Three calls that return.  The first take of a created lock, by identity \<open>Addr 1\<close>: the
  last holder was NULL and the counter goes from 0 to 1.  A second take by the same
  identity after its release: the counter stays 1.  A take by identity \<open>Addr 2\<close> during
  which another thread takes and drops the lock with identity \<open>Addr 1\<close>: the previous last
  holder is \<open>Addr 1\<close>, and the counter goes from 0 to 2, one for each of the two takes.
\<close>

theorem take_gil_switch_counting_witness:
  "create_gil 0 0 0 0 static_init = Inr created \<and>
   run [(0, Call_take_gil (Addr 1))] (init created) = Some first_call \<and>
   pc (thr first_call 0) = T_274 \<and> take_tstate (thr first_call 0) = Addr 1 \<and>
   gil_last_holder first_call = NULL \<and> gil_switch_number first_call = 0 \<and>
   run uncontended_take first_call \<noteq> None \<and> stays 0 uncontended_take \<and>
   pc (thr (the (run uncontended_take first_call)) 0) = Running \<and>
   gil_last_holder (the (run uncontended_take first_call)) = Addr 1 \<and>
   gil_switch_number (the (run uncontended_take first_call)) = 1 \<and>
   run (take_drop 0 (Addr 1) @ [(0, Call_take_gil (Addr 1))]) (init created) = Some second_call \<and>
   pc (thr second_call 0) = T_274 \<and> take_tstate (thr second_call 0) = Addr 1 \<and>
   gil_last_holder second_call = Addr 1 \<and> gil_switch_number second_call = 1 \<and>
   run uncontended_take second_call \<noteq> None \<and>
   pc (thr (the (run uncontended_take second_call)) 0) = Running \<and>
   gil_last_holder (the (run uncontended_take second_call)) = Addr 1 \<and>
   gil_switch_number (the (run uncontended_take second_call)) = 1 \<and>
   run [(1, Call_take_gil (Addr 2))] (init created) = Some other_call \<and>
   pc (thr other_call 1) = T_274 \<and> take_tstate (thr other_call 1) = Addr 2 \<and>
   gil_last_holder other_call = NULL \<and> gil_switch_number other_call = 0 \<and>
   run overtaken other_call \<noteq> None \<and> stays 1 overtaken \<and>
   pc (thr (the (run overtaken other_call)) 1) = Running \<and>
   other_acquisitions 1 overtaken other_call = [Addr 1] \<and>
   previous_holder 1 overtaken other_call = Addr 1 \<and>
   gil_last_holder (the (run overtaken other_call)) = Addr 2 \<and>
   gil_switch_number (the (run overtaken other_call)) = 2"
proof -
  have a0: "run [(0, Call_take_gil (Addr 1))] (init created) = Some first_call"
    using first_call_eval by (auto simp: first_call_def)
  have a1: "run uncontended_take first_call = Some (the (run uncontended_take first_call))"
    using first_call_eval by auto
  have a2: "pc (thr first_call 0) = T_274" "pc (thr (the (run uncontended_take first_call)) 0) = Running"
    using first_call_eval by simp_all
  from take_gil_switch_counting [OF created_eq a0 a2(1) a1 stays_uncontended_take a2(2)]
  have a: "gil_last_holder (the (run uncontended_take first_call)) = Addr 1"
    "gil_switch_number (the (run uncontended_take first_call)) = 1"
    using first_call_eval by (simp_all add: previous_holder_def)
  have b0: "run (take_drop 0 (Addr 1) @ [(0, Call_take_gil (Addr 1))]) (init created) = Some second_call"
    using second_call_eval by (auto simp: second_call_def)
  have b1: "run uncontended_take second_call = Some (the (run uncontended_take second_call))"
    using second_call_eval by auto
  have b2: "pc (thr second_call 0) = T_274" "pc (thr (the (run uncontended_take second_call)) 0) = Running"
    using second_call_eval by simp_all
  from take_gil_switch_counting [OF created_eq b0 b2(1) b1 stays_uncontended_take b2(2)]
  have b: "gil_last_holder (the (run uncontended_take second_call)) = Addr 1"
    "gil_switch_number (the (run uncontended_take second_call)) = 1"
    using second_call_eval by (simp_all add: previous_holder_def)
  have c0: "run [(1, Call_take_gil (Addr 2))] (init created) = Some other_call"
    using other_call_eval by (auto simp: other_call_def)
  have c1: "run overtaken other_call = Some (the (run overtaken other_call))"
    using other_call_eval by auto
  have c2: "pc (thr other_call 1) = T_274" "pc (thr (the (run overtaken other_call)) 1) = Running"
    "stays 1 overtaken"
    using other_call_eval by simp_all
  from take_gil_switch_counting [OF created_eq c0 c2(1) c1 c2(3) c2(2)]
  have c: "gil_last_holder (the (run overtaken other_call)) = Addr 2"
    "gil_switch_number (the (run overtaken other_call)) = 2"
    using other_call_eval by (simp_all add: previous_holder_def)
  have p: "previous_holder 1 overtaken other_call = Addr 1"
    using other_call_eval by (simp add: previous_holder_def)
  show ?thesis
    using created_eq a0 b0 c0 a b c p first_call_eval second_call_eval other_call_eval
      stays_uncontended_take by simp
qed

subsection \<open>The aggregate count\<close>

lemma switches_adjacent_equal:
  "switches h ps + adjacent_equal (h # ps) = length ps"
  by (induction ps arbitrary: h) auto

lemma switches_fresh:
  assumes "h \<notin> set ps"
  shows "switches h ps = length ps - adjacent_equal ps"
proof (cases ps)
  case Nil
  then show ?thesis by simp
next
  case (Cons p ps')
  have "switches h ps + adjacent_equal (h # ps) = length ps"
    by (rule switches_adjacent_equal)
  moreover have "adjacent_equal (h # ps) = adjacent_equal ps"
    using assms Cons by auto
  ultimately show ?thesis by linarith
qed

lemma acquisitions_not_NULL:
  "gil_inv s \<Longrightarrow> run sched s = Some s' \<Longrightarrow> NULL \<notin> set (map snd (acquisitions sched s))"
proof (induction sched arbitrary: s)
  case Nil
  then show ?case by simp
next
  case (Cons a sched)
  obtain j ev where a: "a = (j, ev)" by (cases a)
  from Cons.prems(2) a obtain s1 where s1: "step j ev s = Some s1" and r: "run sched s1 = Some s'"
    by (auto split: option.splits)
  have "pc (thr s j) = T_304 \<longrightarrow> take_tstate (thr s j) \<noteq> NULL"
    using Cons.prems(1) unfolding gil_inv_def inv_defs by auto
  with Cons.IH [OF step_gil_inv [OF Cons.prems(1) s1] r] a s1 show ?case
    by auto
qed

lemma create_gil_switch_number:
  "create_gil r1 r2 r3 r4 g = Inr g0 \<Longrightarrow>
   gil_switch_number g0 = gil_switch_number g \<and> gil_last_holder g0 = NULL"
  by (auto simp: create_gil_def split: if_splits)

lemma uncontended_run:
  "run uncontended (init created) \<noteq> None \<and>
   acquisitions uncontended (init created) = [(0, Addr 1)] \<and>
   gil_switch_number (the (run uncontended (init created))) = 1 \<and>
   gil_last_holder (the (run uncontended (init created))) = Addr 1 \<and>
   gil_locked (the (run uncontended (init created))) = 0 \<and>
   gil_drop_request (the (run uncontended (init created))) = 0"
  by (simp add: uncontended_def take_drop_def created_def eval_defs)

lemma returns_append:
  "run sched s = Some s' \<Longrightarrow> returns (sched @ rest) s = returns sched s @ returns rest s'"
  by (induction sched arbitrary: s) (auto split: option.splits)

lemma step_acquiring:
  assumes "step j ev s = Some s'"
  shows "(pc (thr s j) = T_304 \<longrightarrow> acquiring (pc (thr s' j))) \<and>
         (pc (thr s j) = T_320 \<longrightarrow> pc (thr s' j) = Running) \<and>
         (pc (thr s j) \<noteq> T_304 \<and> pc (thr s j) \<noteq> T_320 \<longrightarrow>
            acquiring (pc (thr s' j)) = acquiring (pc (thr s j))) \<and>
         (acquiring (pc (thr s j)) \<or> pc (thr s j) = T_304 \<longrightarrow>
            take_tstate (thr s' j) = take_tstate (thr s j))"
proof (cases ev)
  case (Exec e)
  show ?thesis
    by (cases "pc (thr s j)";
        use assms Exec in \<open>clarsimp simp: step_defs split: if_splits\<close>)
qed (use assms in \<open>auto simp: step_defs split: if_splits\<close>)

lemma acquiring_owner: "acquiring l \<Longrightarrow> owner l \<and> l \<noteq> T_304 \<and> l \<noteq> Running"
  by (cases l) simp_all

lemma run_snoc:
  "run (sched @ [(j, ev)]) s0 = Some s \<Longrightarrow> \<exists>sm. run sched s0 = Some sm \<and> step j ev sm = Some s"
  by (induction sched arbitrary: s0) (auto split: option.splits)

lemma acquisitions_returns:
  assumes "gil_inv s0" and "\<forall>i. \<not> acquiring (pc (thr s0 i))"
  shows "run sched s0 = Some s \<Longrightarrow>
         (\<forall>i. \<not> acquiring (pc (thr s i))) \<and> acquisitions sched s0 = returns sched s0 \<or>
         (\<exists>i. acquiring (pc (thr s i)) \<and>
              acquisitions sched s0 = returns sched s0 @ [(i, take_tstate (thr s i))])"
proof (induction sched arbitrary: s rule: rev_induct)
  case Nil
  then show ?case using assms(2) by simp
next
  case (snoc a sched)
  obtain j ev where a: "a = (j, ev)" by (cases a)
  from snoc.prems a obtain sm where sm: "run sched s0 = Some sm" and st: "step j ev sm = Some s"
    using run_snoc by blast
  have inv: "gil_inv sm"
    using assms(1) sm by (rule run_gil_inv)
  then have uniq: "\<And>x y. owner (pc (thr sm x)) \<Longrightarrow> owner (pc (thr sm y)) \<Longrightarrow> x = y"
    unfolding gil_inv_def inv_defs by blast
  have acq: "acquisitions (sched @ [a]) s0 =
      acquisitions sched s0 @ (if pc (thr sm j) = T_304 then [(j, take_tstate (thr sm j))] else [])"
    using acquisitions_append [OF sm, of "[a]"] a st by simp
  have ret: "returns (sched @ [a]) s0 =
      returns sched s0 @ (if pc (thr sm j) = T_320 then [(j, take_tstate (thr sm j))] else [])"
    using returns_append [OF sm, of "[a]"] a st by simp
  note me = step_acquiring [OF st]
  have other: "\<And>i. i \<noteq> j \<Longrightarrow> thr s i = thr sm i"
    using step_thr_other [OF st] by simp
  note ih = snoc.IH [OF sm]
  consider (acquire) "pc (thr sm j) = T_304" | (return) "pc (thr sm j) = T_320"
    | (other) "pc (thr sm j) \<noteq> T_304" "pc (thr sm j) \<noteq> T_320"
    by blast
  then show ?case
  proof cases
    case acquire
    have none: "\<And>i. \<not> acquiring (pc (thr sm i))"
    proof
      fix i assume i: "acquiring (pc (thr sm i))"
      then have "i = j"
        using uniq [of i j] acquiring_owner [OF i] acquire by simp
      with i acquire show False by simp
    qed
    with ih have "acquisitions sched s0 = returns sched s0"
      by blast
    then have "acquisitions (sched @ [a]) s0 = returns (sched @ [a]) s0 @ [(j, take_tstate (thr s j))]"
      using acq ret acquire me by simp
    moreover have "acquiring (pc (thr s j))"
      using me acquire by simp
    ultimately show ?thesis by blast
  next
    case return
    then have j: "acquiring (pc (thr sm j))" by simp
    have only: "\<And>i. acquiring (pc (thr sm i)) \<Longrightarrow> i = j"
      using uniq acquiring_owner j by blast
    from ih j only have "acquisitions sched s0 = returns sched s0 @ [(j, take_tstate (thr sm j))]"
      by blast
    then have "acquisitions (sched @ [a]) s0 = returns (sched @ [a]) s0"
      using acq ret return by simp
    moreover have "\<And>i. \<not> acquiring (pc (thr s i))"
    proof
      fix i assume i: "acquiring (pc (thr s i))"
      have "i \<noteq> j"
        using i me return by auto
      then have "acquiring (pc (thr sm i))"
        using i other by simp
      with only \<open>i \<noteq> j\<close> show False by blast
    qed
    ultimately show ?thesis by blast
  next
    case other': other
    have same: "\<And>i. acquiring (pc (thr s i)) = acquiring (pc (thr sm i))"
      using me other' other by metis
    have eq: "acquisitions (sched @ [a]) s0 = acquisitions sched s0"
      "returns (sched @ [a]) s0 = returns sched s0"
      using acq ret other' by simp_all
    from ih show ?thesis
    proof
      assume "(\<forall>i. \<not> acquiring (pc (thr sm i))) \<and> acquisitions sched s0 = returns sched s0"
      then show ?thesis
        using same eq by simp
    next
      assume "\<exists>i. acquiring (pc (thr sm i)) \<and>
          acquisitions sched s0 = returns sched s0 @ [(i, take_tstate (thr sm i))]"
      then obtain i where i: "acquiring (pc (thr sm i))"
        "acquisitions sched s0 = returns sched s0 @ [(i, take_tstate (thr sm i))]"
        by blast
      have "take_tstate (thr s i) = take_tstate (thr sm i)"
        using i(1) me other [of i] by (cases "i = j") simp_all
      then show ?thesis
        using i same eq by auto
    qed
  qed
qed

text \<open>
  C4, as amended.  From a freshly created lock, along every schedule: when the executions
  of lines 304--307 (the takes that got the lock) number \<open>N\<close> and the sequence of their
  identities has \<open>K\<close> adjacent equal pairs, \<open>gil_switch_number\<close> has grown by \<open>N - K\<close>, in
  \<open>unsigned long\<close> arithmetic.  Whenever no take is between its line 304 and its return,
  these takes are the calls of \<open>take_gil\<close> that have returned, in the same order, and the
  same holds of the returned calls.  Nothing is subtracted for the first take: after
  \<open>create_gil\<close> the last holder is NULL, which no identity equals, so the first take
  counts as a switch.
\<close>

theorem switch_count_formula:
  assumes "create_gil r1 r2 r3 r4 g = Inr g0" and "run sched (init g0) = Some s"
  shows "gil_switch_number s =
           gil_switch_number g +
           of_nat (length (acquisitions sched (init g0)) -
                   adjacent_equal (map snd (acquisitions sched (init g0)))) \<and>
         ((\<forall>i. \<not> acquiring (pc (thr s i))) \<longrightarrow>
            gil_switch_number s =
              gil_switch_number g +
              of_nat (length (returns sched (init g0)) -
                      adjacent_equal (map snd (returns sched (init g0)))))"
proof -
  let ?ids = "map snd (acquisitions sched (init g0))"
  have inv: "gil_inv (init g0)"
    using assms(1) by (rule init_gil_inv)
  have "NULL \<notin> set ?ids"
    using inv assms(2) by (rule acquisitions_not_NULL)
  then have "switches NULL ?ids = length ?ids - adjacent_equal ?ids"
    by (rule switches_fresh)
  moreover have "gil_switch_number (init g0) = gil_switch_number g" "gil_last_holder (init g0) = NULL"
    using create_gil_switch_number [OF assms(1)] by (simp_all add: init_def)
  ultimately have acq: "gil_switch_number s =
      gil_switch_number g +
      of_nat (length (acquisitions sched (init g0)) - adjacent_equal ?ids)"
    using run_switches [OF assms(2)] by simp
  have idle: "\<forall>i. \<not> acquiring (pc (thr (init g0) i))"
    by (simp add: init_def idle_thread_def)
  have "returns sched (init g0) = acquisitions sched (init g0)"
    if "\<forall>i. \<not> acquiring (pc (thr s i))"
    using acquisitions_returns [OF inv idle assms(2)] that by auto
  with acq show ?thesis by simp
qed

lemma other_threads_idle:
  assumes "i \<noteq> 0" and "run (uncontended @ uncontended) (init created) = Some s"
  shows "pc (thr s i) = Idle"
proof -
  have "unscheduled i (uncontended @ uncontended)"
    using assms(1) by (simp add: uncontended_def take_drop_def numeral_eq_Suc)
  from run_unscheduled [OF assms(2) this] show ?thesis
    by (simp add: init_def idle_thread_def)
qed

lemma twice_eval:
  "run (uncontended @ uncontended) (init created) \<noteq> None \<and>
   pc (thr (the (run (uncontended @ uncontended) (init created))) 0) = Idle \<and>
   returns (uncontended @ uncontended) (init created) = [(0, Addr 1), (0, Addr 1)]"
  by code_simp

theorem switch_count_formula_witness:
  "create_gil 0 0 0 0 static_init = Inr created \<and>
   run (uncontended @ uncontended) (init created) \<noteq> None \<and>
   map snd (returns (uncontended @ uncontended) (init created)) = [Addr 1, Addr 1] \<and>
   pc (thr (the (run (uncontended @ uncontended) (init created))) 0) = Idle \<and>
   gil_switch_number (the (run (uncontended @ uncontended) (init created))) =
     gil_switch_number static_init + 1"
proof -
  obtain s where s: "run (uncontended @ uncontended) (init created) = Some s"
    using twice_eval by blast
  have "pc (thr s i) = Idle" for i
    using other_threads_idle [OF _ s] twice_eval s by (cases "i = 0") simp_all
  then have "\<forall>i. \<not> acquiring (pc (thr s i))"
    by simp
  with switch_count_formula [OF created_eq s]
  have "gil_switch_number s =
      gil_switch_number static_init +
      of_nat (length (returns (uncontended @ uncontended) (init created)) -
              adjacent_equal (map snd (returns (uncontended @ uncontended) (init created))))"
    by blast
  then have "gil_switch_number s = gil_switch_number static_init + 1"
    using twice_eval by simp
  then show ?thesis
    using created_eq twice_eval s by simp
qed

lemma uncontended_returns: "returns uncontended (init created) = [(0, Addr 1)]"
  by code_simp

text \<open>
  C4 as stated fails on the uncontended scenario: one take (\<open>N = 1\<close>, \<open>K = 0\<close>) on a
  freshly created lock raises the counter by 1, not by \<open>N - K - 1 = 0\<close>.
\<close>

theorem switch_count_formula_counterexample:
  "create_gil 0 0 0 0 static_init = Inr created \<and>
   run uncontended (init created) \<noteq> None \<and>
   map snd (returns uncontended (init created)) = [Addr 1] \<and>
   uint (gil_switch_number (the (run uncontended (init created)))) -
     uint (gil_switch_number static_init) = 1 \<and>
   uint (gil_switch_number (the (run uncontended (init created)))) -
     uint (gil_switch_number static_init) \<noteq>
   int (length (returns uncontended (init created))) -
     int (adjacent_equal (map snd (returns uncontended (init created)))) - 1"
  using uncontended_run created_eq uncontended_returns by (simp add: static_init_def)

subsection \<open>Creation\<close>

lemma create_gil_ok:
  "create_gil 0 0 0 0 g = Inr (g\<lparr>gil_mutex := None, switch_mutex := None, gil_cond := {},
      switch_cond := {}, gil_locked := 0, gil_last_holder := NULL\<rparr>)"
  by (simp add: create_gil_def)

text \<open>
  C5, as amended.  When the four primitives are created, \<open>create_gil\<close> and
  \<open>recreate_gil\<close> leave the lock free with no last holder, and leave
  \<open>gil_switch_number\<close> as it was: it is 0 only from the static initial value.  On the lock
  so (re)created, whatever the variables were before, \<open>take_gil(A); drop_gil(A)\<close> by one
  thread runs to the end and leaves the lock free, \<open>A\<close> the last holder, the drop request
  clear and \<open>gil_switch_number\<close> one more than before the (re)creation.
\<close>

theorem create_gil_postcondition:
  "\<exists>g0. create_gil 0 0 0 0 g = Inr g0 \<and> recreate_gil 0 0 0 0 g = Inr g0 \<and>
     gil_locked g0 = 0 \<and> gil_last_holder g0 = NULL \<and>
     gil_switch_number g0 = gil_switch_number g \<and>
     gil_switch_number static_init = 0 \<and>
     run (take_drop i (Addr a)) (init g0) \<noteq> None \<and>
     gil_locked (the (run (take_drop i (Addr a)) (init g0))) = 0 \<and>
     gil_last_holder (the (run (take_drop i (Addr a)) (init g0))) = Addr a \<and>
     gil_switch_number (the (run (take_drop i (Addr a)) (init g0))) = gil_switch_number g + 1 \<and>
     gil_drop_request (the (run (take_drop i (Addr a)) (init g0))) = 0"
  by (simp add: recreate_gil_def create_gil_ok take_drop_def static_init_def eval_defs)

text \<open>
  C5 as stated fails after a fork: the child of a process whose thread has taken the lock
  once inherits \<open>gil_switch_number = 1\<close>; \<open>recreate_gil\<close> leaves it at 1, not 0, and
  \<open>take_gil; drop_gil\<close> in the child ends with 2, not 1.
\<close>

theorem create_gil_postcondition_counterexample:
  "statics (the (run ((0, Call_take_gil (Addr 1)) # uncontended_take) (init created))) = forked \<and>
   recreate_gil 0 0 0 0 forked = Inr recreated \<and>
   gil_switch_number recreated = 1 \<and>
   gil_switch_number recreated \<noteq> 0 \<and>
   run uncontended (init recreated) \<noteq> None \<and>
   gil_switch_number (the (run uncontended (init recreated))) = 2 \<and>
   gil_switch_number (the (run uncontended (init recreated))) \<noteq> 1"
  by (simp add: recreate_gil_def create_gil_def forked_def recreated_def statics_def created_def
      uncontended_take_def uncontended_def take_drop_def eval_defs)

subsection \<open>The wait loop of take\_gil\<close>

lemma locked_0_or_1:
  assumes "gil_inv s"
  shows "gil_locked s = 0 \<or> gil_locked s = 1"
  using assms unfolding gil_inv_def inv_defs by blast

text \<open>
  C6.  One turn of the wait loop, in any state a created lock can reach: thread \<open>i\<close> at
  line 288 saves the switch number and starts its timed wait (state \<open>sb\<close>); the other
  threads run, by any schedule; the wait returns with code \<open>rc e1\<close> (state \<open>s1\<close>).  Then
  line 292 sets the drop request exactly when the wait timed out, the lock is still taken
  and the switch number is the one saved before the wait; otherwise it leaves the flag
  as it is; and the loop goes back to line 284, which examines \<open>gil_locked\<close> again.
\<close>

theorem drop_request_after_timed_wait:
  assumes "create_gil r1 r2 r3 r4 g = Inr g0" and "run sched0 (init g0) = Some s0"
    and "pc (thr s0 i) = T_288"
    and "run [(i, Exec e0), (i, Exec ea)] s0 = Some sb"
    and "run sched sb = Some s" and "unscheduled i sched"
    and "step i (Exec e1) s = Some s1" and "fatal s1 = None"
  shows "pc (thr sb i) = T_289_blocked \<and> pc (thr s1 i) = T_292 \<and>
         (\<exists>s2. step i (Exec e2) s1 = Some s2 \<and> pc (thr s2 i) = T_284 \<and>
            gil_drop_request s2 =
              (if rc e1 = ETIMEDOUT \<and> gil_locked s = 1 \<and> gil_switch_number s = gil_switch_number s0
               then 1 else gil_drop_request s) \<and>
            (\<exists>s3. step i (Exec e3) s2 = Some s3 \<and>
               pc (thr s3 i) = (if gil_locked s2 = 1 then T_288 else T_299)))"
proof -
  from assms(4) obtain sa where sa: "step i (Exec e0) s0 = Some sa" and sb: "step i (Exec ea) sa = Some sb"
    by (auto split: option.splits)
  have a: "pc (thr sa i) = T_289" "saved_switchnum (thr sa i) = gil_switch_number s0" "fatal sa = None"
    using sa assms(3) by (auto simp: step_defs split: if_splits)
  have b: "pc (thr sb i) = T_289_blocked" "saved_switchnum (thr sb i) = gil_switch_number s0"
    using sb a by (auto simp: step_defs split: if_splits)
  have c: "pc (thr s i) = T_289_blocked" "saved_switchnum (thr s i) = gil_switch_number s0"
    using run_unscheduled [OF assms(5,6)] b by simp_all
  have inv: "gil_inv s"
    using reachable_gil_inv [OF assms(1,2)] assms(4,5) run_gil_inv by blast
  have d: "pc (thr s1 i) = T_292" "saved_switchnum (thr s1 i) = gil_switch_number s0"
    "(timed_out (thr s1 i) \<noteq> 0) = (rc e1 = ETIMEDOUT)"
    "gil_locked s1 = gil_locked s" "gil_switch_number s1 = gil_switch_number s"
    "gil_drop_request s1 = gil_drop_request s"
    using assms(7,8) c by (auto simp: step_defs split: if_splits)
  have l: "gil_locked s = 0 \<or> gil_locked s = 1"
    using inv by (rule locked_0_or_1)
  show ?thesis
    using b(1) d l assms(8) by (auto simp: step_defs)
qed

lemma waiting_run:
  "\<exists>s0 sb s1. run waiting (init created) = Some s0 \<and> pc (thr s0 1) = T_288 \<and>
     run [(1, Exec ok), (1, Exec ok)] s0 = Some sb \<and> step 1 (Exec timeout) sb = Some s1 \<and>
     fatal s1 = None \<and> gil_locked sb = 1 \<and> gil_switch_number sb = gil_switch_number s0 \<and>
     gil_drop_request sb = 0"
  by (simp add: waiting_def timeout_def created_def eval_defs)

theorem drop_request_after_timed_wait_witness:
  "\<exists>s0 sb s1 s2. create_gil 0 0 0 0 static_init = Inr created \<and>
     run waiting (init created) = Some s0 \<and> pc (thr s0 1) = T_288 \<and>
     run [(1, Exec ok), (1, Exec ok)] s0 = Some sb \<and> run [] sb = Some sb \<and> unscheduled 1 [] \<and>
     step 1 (Exec timeout) sb = Some s1 \<and> fatal s1 = None \<and>
     step 1 (Exec ok) s1 = Some s2 \<and> gil_drop_request sb = 0 \<and> gil_drop_request s2 = 1"
proof -
  obtain s0 sb s1 where r: "run waiting (init created) = Some s0" "pc (thr s0 1) = T_288"
    "run [(1, Exec ok), (1, Exec ok)] s0 = Some sb" "step 1 (Exec timeout) sb = Some s1"
    "fatal s1 = None" "gil_locked sb = 1" "gil_switch_number sb = gil_switch_number s0"
    "gil_drop_request sb = 0"
    using waiting_run by blast
  have e: "run [] sb = Some sb" "unscheduled 1 []" "rc timeout = ETIMEDOUT"
    by (simp_all add: timeout_def)
  from drop_request_after_timed_wait [OF created_eq r(1,2,3) e(1,2) r(4,5), of ok ok]
  obtain s2 where "step 1 (Exec ok) s1 = Some s2" "gil_drop_request s2 = 1"
    using r(6,7) e(3) by auto
  then show ?thesis
    using created_eq r e by blast
qed

subsection \<open>The checks of drop\_gil\<close>

text \<open>
  C7, as amended.  A statement of \<open>drop_gil\<close> ends the process exactly in three cases:
  line 247 when \<open>gil_locked\<close> is 0; line 249 when the identity passed is not NULL and
  differs from \<open>gil_last_holder\<close>; a mutex or condition-variable primitive that fails.
  So the first check fires when the lock is free, not when it is uninitialized
  (\<open>gil_locked = -1\<close>).
\<close>

theorem drop_gil_aborts_iff:
  assumes "step i (Exec e) s = Some s'" and "in_drop_gil (pc (thr s i))"
  shows "(fatal s' \<noteq> None) =
           (pc (thr s i) = D_247 \<and> gil_locked s = 0 \<or>
            pc (thr s i) = D_249 \<and> drop_tstate (thr s i) \<noteq> NULL \<and>
              drop_tstate (thr s i) \<noteq> gil_last_holder s \<or>
            drop_primitive (pc (thr s i)) \<and> rc e \<noteq> 0)"
  by (cases "pc (thr s i)"; use assms in \<open>clarsimp simp: step_defs split: if_splits\<close>)

lemma wrong_identity_run:
  "\<exists>s s'. run wrong_identity (init created) = Some s \<and> pc (thr s 0) = D_249 \<and>
     drop_tstate (thr s 0) = Addr 2 \<and> gil_last_holder s = Addr 1 \<and> gil_locked s = 1 \<and>
     step 0 (Exec ok) s = Some s'"
  by (simp add: wrong_identity_def uncontended_take_def created_def eval_defs)

theorem drop_gil_aborts_iff_witness:
  "\<exists>s s'. run wrong_identity (init created) = Some s \<and> step 0 (Exec ok) s = Some s' \<and>
     in_drop_gil (pc (thr s 0)) \<and> gil_locked s = 1 \<and> drop_tstate (thr s 0) = Addr 2 \<and>
     gil_last_holder s = Addr 1 \<and> fatal s' \<noteq> None"
proof -
  obtain s s' where r: "run wrong_identity (init created) = Some s" "pc (thr s 0) = D_249"
    "drop_tstate (thr s 0) = Addr 2" "gil_last_holder s = Addr 1" "gil_locked s = 1"
    "step 0 (Exec ok) s = Some s'"
    using wrong_identity_run by blast
  have d: "in_drop_gil (pc (thr s 0))"
    using r(2) by simp
  from drop_gil_aborts_iff [OF r(6) d] r have "fatal s' \<noteq> None"
    by simp
  then show ?thesis
    using r d by blast
qed

text \<open>
  C7 as stated fails in the uninitialized state: \<open>drop_gil(NULL)\<close> called before
  \<open>create_gil\<close> passes both checks and returns, though the lock is not taken.
\<close>

theorem drop_gil_aborts_iff_counterexample:
  "gil_locked uninitialized_drop = - 1 \<and> \<not> gil_created uninitialized_drop \<and>
   pc (thr uninitialized_drop 0) = D_247 \<and> drop_tstate (thr uninitialized_drop 0) = NULL \<and>
   run (replicate 7 (0, Exec ok)) uninitialized_drop \<noteq> None \<and>
   fatal (the (run (replicate 7 (0, Exec ok)) uninitialized_drop)) = None \<and>
   pc (thr (the (run (replicate 7 (0, Exec ok)) uninitialized_drop)) 0) = Idle"
  by (simp add: uninitialized_drop_def static_init_def gil_created_def eval_defs)

subsection \<open>Releasing with no identity\<close>





subsection \<open>The switch interval\<close>

text \<open>
  C8.  Setting the switch interval and reading it back returns the value set, for every
  value (so for every value of at least 1); the macro \<open>INTERVAL\<close> is the value set when
  that is at least 1 and 1 when the value set is 0; and it is \<open>INTERVAL\<close> that line 289
  passes to the timed wait as its number of microseconds.
\<close>

theorem switch_interval_round_trip:
  "PyEval_GetSwitchInterval (PyEval_SetSwitchInterval v g) = v \<and>
   INTERVAL (PyEval_SetSwitchInterval v g) = (if v = 0 then 1 else v) \<and>
   (pc (thr s i) = T_289 \<longrightarrow>
      (\<exists>s'. take_gil i e (PyEval_SetSwitchInterval v s) = Some s' \<and>
            microseconds (thr s' i) = (if v = 0 then 1 else v)))"
  using word_le_sub1 [of v]
  by (auto simp add: PyEval_GetSwitchInterval_def PyEval_SetSwitchInterval_def INTERVAL_def
      take_gil_def upd_def)

lemma waiting_289:
  "run (waiting @ [(1, Exec ok)]) (init created) \<noteq> None \<and>
   pc (thr (the (run (waiting @ [(1, Exec ok)]) (init created))) 1) = T_289"
  by code_simp

theorem switch_interval_round_trip_witness:
  "\<exists>s s'. run (waiting @ [(1, Exec ok)]) (init created) = Some s \<and> pc (thr s 1) = T_289 \<and>
     take_gil 1 ok (PyEval_SetSwitchInterval 0 s) = Some s' \<and> microseconds (thr s' 1) = 1"
proof -
  obtain s where s: "run (waiting @ [(1, Exec ok)]) (init created) = Some s" "pc (thr s 1) = T_289"
    using waiting_289 by auto
  from switch_interval_round_trip [of 0 s s 1 ok] s(2)
  obtain s' where "take_gil 1 ok (PyEval_SetSwitchInterval 0 s) = Some s'" "microseconds (thr s' 1) = 1"
    by auto
  then show ?thesis
    using s by blast
qed

subsection \<open>The error indicator\<close>

lemma step_errno_kept:
  assumes "errno_kept v (thr s i)" and "step j ev s = Some s'" and "j \<noteq> i \<or> \<not> enters ev"
  shows "errno_kept v (thr s' i)"
proof (cases "j = i")
  case False
  with step_thr_other [OF assms(2), of i] assms(1) show ?thesis by simp
next
  case True
  show ?thesis
  proof (cases ev)
    case (Exec e)
    show ?thesis
      by (cases "pc (thr s i)";
          use assms True Exec in \<open>clarsimp simp: errno_kept_def step_defs split: if_splits\<close>)
  qed (use assms True in \<open>clarsimp simp: errno_kept_def step_defs enters_def split: if_splits\<close>)+
qed

lemma run_errno_kept:
  "errno_kept v (thr s i) \<Longrightarrow> run sched s = Some s' \<Longrightarrow> stays i sched \<Longrightarrow> errno_kept v (thr s' i)"
proof (induction sched arbitrary: s)
  case Nil
  then show ?case by simp
next
  case (Cons a sched)
  obtain j ev where a: "a = (j, ev)" by (cases a)
  from Cons.prems(2) a obtain s1 where s1: "step j ev s = Some s1" and r: "run sched s1 = Some s'"
    by (auto split: option.splits)
  from Cons.prems(3) a have st: "j \<noteq> i \<or> \<not> enters ev" "stays i sched" by simp_all
  from step_errno_kept [OF Cons.prems(1) s1 st(1)] r st(2) show ?case
    by (rule Cons.IH)
qed

text \<open>
  C9.  From any state in which thread \<open>i\<close> has just called \<open>take_gil\<close>, along any
  schedule of all the threads and whatever the library calls leave in \<open>errno\<close>: when the
  call has returned, the thread's \<open>errno\<close> is what it was at the call.
\<close>

theorem take_gil_restores_errno:
  assumes "pc (thr s i) = T_274" and "run sched s = Some s'" and "stays i sched"
    and "pc (thr s' i) = Running"
  shows "errno (thr s' i) = errno (thr s i)"
proof -
  have "errno_kept (errno (thr s i)) (thr s i)"
    using assms(1) by (simp add: errno_kept_def)
  then have "errno_kept (errno (thr s i)) (thr s' i)"
    using assms(2,3) by (rule run_errno_kept)
  then show ?thesis
    using assms(4) by (simp add: errno_kept_def)
qed

lemma noisy_take_eval:
  "run noisy_cycle (init created) \<noteq> None \<and>
   pc (thr (the (run noisy_cycle (init created))) 0) = T_274 \<and>
   errno (thr (the (run noisy_cycle (init created))) 0) = 5 \<and>
   run (replicate 13 (0, Exec loud)) (the (run noisy_cycle (init created))) \<noteq> None \<and>
   errno (thr (the (run (replicate 12 (0, Exec loud)) (the (run noisy_cycle (init created))))) 0) = 9 \<and>
   pc (thr (the (run (replicate 13 (0, Exec loud)) (the (run noisy_cycle (init created))))) 0) = Running \<and>
   stays 0 (replicate 13 (0, Exec loud))"
  by code_simp

theorem take_gil_restores_errno_witness:
  "pc (thr (the (run noisy_cycle (init created))) 0) = T_274 \<and>
   errno (thr (the (run noisy_cycle (init created))) 0) = 5 \<and>
   run (replicate 13 (0, Exec loud)) (the (run noisy_cycle (init created))) \<noteq> None \<and>
   stays 0 (replicate 13 (0, Exec loud)) \<and>
   pc (thr (the (run (replicate 13 (0, Exec loud)) (the (run noisy_cycle (init created))))) 0) = Running \<and>
   errno (thr (the (run (replicate 12 (0, Exec loud)) (the (run noisy_cycle (init created))))) 0) = 9 \<and>
   errno (thr (the (run (replicate 13 (0, Exec loud)) (the (run noisy_cycle (init created))))) 0) = 5"
proof -
  let ?s = "the (run noisy_cycle (init created))"
  obtain s' where s': "run (replicate 13 (0, Exec loud)) ?s = Some s'"
    using noisy_take_eval by blast
  have "errno (thr s' 0) = errno (thr ?s 0)"
    using take_gil_restores_errno [OF _ s', of 0] noisy_take_eval s' by simp
  then show ?thesis
    using noisy_take_eval s' by simp
qed

subsection \<open>The forced handoff\<close>

lemma step_identities:
  assumes "identities ident s" and "step j ev s = Some s'" and "own_call ident j ev"
  shows "identities ident s'"
  unfolding identities_def
proof (intro allI)
  fix k
  from assms(1) have facts:
    "pc (thr s j) \<noteq> Idle \<longrightarrow> take_tstate (thr s j) = ident j"
    "pc (thr s k) \<noteq> Idle \<longrightarrow> take_tstate (thr s k) = ident k"
    unfolding identities_def by blast+
  show "pc (thr s' k) \<noteq> Idle \<longrightarrow> take_tstate (thr s' k) = ident k"
  proof (cases ev)
    case (Exec e)
    show ?thesis
      by (cases "pc (thr s j)";
          use assms(2) Exec facts in \<open>clarsimp simp: step_defs split: if_splits\<close>)
  qed (use assms(2,3) facts in \<open>clarsimp simp: step_defs own_call_def split: if_splits\<close>)+
qed

lemma step_handoff_self:
  assumes "gil_inv s" and "identities ident s" and "handoff_inv ident i t s"
    and "step i ev s = Some s'" and "\<not> enters ev" and "\<not> spurious_wake ev"
  shows "handoff_inv ident i t s'"
proof -
  from assms(1,2) have facts:
    "owner (pc (thr s i)) \<and> pc (thr s i) \<noteq> T_304 \<longrightarrow> take_tstate (thr s i) = gil_last_holder s"
    "pc (thr s i) \<noteq> Idle \<longrightarrow> take_tstate (thr s i) = ident i"
    unfolding gil_inv_def inv_defs identities_def by blast+
  show ?thesis
  proof (cases ev)
    case (Exec e)
    show ?thesis
      by (cases "pc (thr s i)";
          use assms(3-6) Exec facts in
            \<open>clarsimp simp: handoff_inv_def spurious_wake_def step_defs split: if_splits\<close>; auto)
  qed (use assms(3-6) facts in
        \<open>clarsimp simp: handoff_inv_def enters_def step_defs split: if_splits\<close>)+
qed

lemma before_wait_cases:
  "before_wait l \<Longrightarrow> checked l \<or> owner l"
  by (cases l) simp_all

lemma step_handoff_other:
  assumes "gil_inv s" and "identities ident s" and "handoff_inv ident i t s"
    and "step j ev s = Some s'" and "j \<noteq> i" and "ident j \<noteq> ident i"
  shows "handoff_inv ident i t s'"
proof -
  from assms(1,2) have facts:
    "owner (pc (thr s j)) \<and> pc (thr s j) \<noteq> T_304 \<longrightarrow> take_tstate (thr s j) = gil_last_holder s"
    "pc (thr s j) \<noteq> Idle \<longrightarrow> take_tstate (thr s j) = ident j"
    "pc (thr s j) \<noteq> Idle \<and> pc (thr s j) \<noteq> T_274 \<longrightarrow> take_tstate (thr s j) \<noteq> NULL"
    "\<not> (owner (pc (thr s i)) \<and> owner (pc (thr s j)))"
    using assms(5) unfolding gil_inv_def inv_defs identities_def by blast+
  have bw: "before_wait (pc (thr s i)) \<longrightarrow> checked (pc (thr s i)) \<or> owner (pc (thr s i))"
    using before_wait_cases by blast
  have same: "thr s' i = thr s i"
    using step_thr_other [OF assms(4)] assms(5) by simp
  show ?thesis
  proof (cases ev)
    case (Exec e)
    show ?thesis
      by (cases "pc (thr s j)";
          use assms(3-6) Exec facts bw same in
            \<open>clarsimp simp: handoff_inv_def step_defs split: if_splits\<close>; auto)
  qed (use assms(3-6) facts bw same in
        \<open>clarsimp simp: handoff_inv_def step_defs split: if_splits\<close>)+
qed

lemma run_identities:
  "identities ident s \<Longrightarrow> run sched s = Some s' \<Longrightarrow> own_identity ident sched \<Longrightarrow>
   identities ident s'"
proof (induction sched arbitrary: s)
  case Nil
  then show ?case by simp
next
  case (Cons a sched)
  obtain j ev where a: "a = (j, ev)" by (cases a)
  from Cons.prems(2) a obtain s1 where s1: "step j ev s = Some s1" and r: "run sched s1 = Some s'"
    by (auto split: option.splits)
  from Cons.prems(3) a have o: "own_call ident j ev" "own_identity ident sched" by simp_all
  from step_identities [OF Cons.prems(1) s1 o(1)] r o(2) show ?case
    by (rule Cons.IH)
qed

lemma init_identities: "identities ident (init g0)"
  by (simp add: identities_def init_def idle_thread_def)

lemma run_handoff:
  "gil_inv s \<Longrightarrow> identities ident s \<Longrightarrow> handoff_inv ident i t s \<Longrightarrow> inj ident \<Longrightarrow>
   run sched s = Some s' \<Longrightarrow> own_identity ident sched \<Longrightarrow> stays i sched \<Longrightarrow>
   no_spurious i sched \<Longrightarrow> handoff_inv ident i t s'"
proof (induction sched arbitrary: s)
  case Nil
  then show ?case by simp
next
  case (Cons a sched)
  obtain j ev where a: "a = (j, ev)" by (cases a)
  from Cons.prems(5) a obtain s1 where s1: "step j ev s = Some s1" and r: "run sched s1 = Some s'"
    by (auto split: option.splits)
  from Cons.prems(6,7,8) a have o: "own_call ident j ev" "own_identity ident sched"
    and st: "j \<noteq> i \<or> \<not> enters ev" "stays i sched"
    and ns: "j \<noteq> i \<or> \<not> spurious_wake ev" "no_spurious i sched"
    by simp_all
  have h1: "handoff_inv ident i t s1"
  proof (cases "j = i")
    case True
    with step_handoff_self [OF Cons.prems(1,2,3)] s1 st(1) ns(1) show ?thesis by blast
  next
    case False
    then have "ident j \<noteq> ident i"
      using Cons.prems(4) by (auto dest: injD)
    with step_handoff_other [OF Cons.prems(1,2,3) s1 False] show ?thesis by blast
  qed
  from Cons.IH [OF step_gil_inv [OF Cons.prems(1) s1] step_identities [OF Cons.prems(2) s1 o(1)]
      h1 Cons.prems(4) r o(2) st(2) ns(2)]
  show ?case .
qed

text \<open>
  The handoff is forced as long as the wait of line 265 returns only once it has been
  signalled.  In a process whose threads pass pairwise different thread states to
  \<open>take_gil\<close>: when thread \<open>i\<close> calls \<open>drop_gil(t)\<close> with the drop request set, and no
  event wakes thread \<open>i\<close> spuriously, \<open>gil_last_holder\<close> differs from \<open>t\<close> when the call
  has returned.
\<close>

theorem forced_handoff:
  assumes "create_gil r1 r2 r3 r4 g = Inr g0" and "inj ident"
    and "run sched0 (init g0) = Some s0" and "own_identity ident sched0"
    and "pc (thr s0 i) = D_247" and "gil_drop_request s0 \<noteq> 0"
    and "run sched s0 = Some s" and "own_identity ident sched" and "stays i sched"
    and "no_spurious i sched" and "pc (thr s i) = Idle"
  shows "gil_last_holder s \<noteq> drop_tstate (thr s0 i)"
proof -
  have inv: "gil_inv s0"
    using assms(1,3) by (rule reachable_gil_inv)
  have ids: "identities ident s0"
    using init_identities assms(3,4) by (rule run_identities)
  have "handoff_inv ident i (drop_tstate (thr s0 i)) s0"
    using assms(5,6) by (simp add: handoff_inv_def)
  from run_handoff [OF inv ids this assms(2,7,8,9,10)]
  show ?thesis
    using assms(11) by (simp add: handoff_inv_def)
qed

lemma inj_thread_state: "inj thread_state"
  by (simp add: inj_def thread_state_def)

lemma contend_until_drop_eval:
  "run contend_until_drop (init created) \<noteq> None \<and>
   own_identity thread_state contend_until_drop \<and>
   pc (thr (the (run contend_until_drop (init created))) 0) = D_247 \<and>
   drop_tstate (thr (the (run contend_until_drop (init created))) 0) = Addr 1 \<and>
   gil_drop_request (the (run contend_until_drop (init created))) = 1"
  by code_simp

lemma handed_over_eval:
  "run handed_over (the (run contend_until_drop (init created))) \<noteq> None \<and>
   own_identity thread_state handed_over \<and> stays 0 handed_over \<and> no_spurious 0 handed_over \<and>
   pc (thr (the (run handed_over (the (run contend_until_drop (init created))))) 0) = Idle \<and>
   gil_last_holder (the (run handed_over (the (run contend_until_drop (init created))))) = Addr 2"
  by code_simp

theorem forced_handoff_witness:
  "create_gil 0 0 0 0 static_init = Inr created \<and> inj thread_state \<and>
   run contend_until_drop (init created) \<noteq> None \<and>
   own_identity thread_state contend_until_drop \<and>
   pc (thr (the (run contend_until_drop (init created))) 0) = D_247 \<and>
   gil_drop_request (the (run contend_until_drop (init created))) \<noteq> 0 \<and>
   run handed_over (the (run contend_until_drop (init created))) \<noteq> None \<and>
   own_identity thread_state handed_over \<and> stays 0 handed_over \<and> no_spurious 0 handed_over \<and>
   pc (thr (the (run handed_over (the (run contend_until_drop (init created))))) 0) = Idle \<and>
   gil_last_holder (the (run handed_over (the (run contend_until_drop (init created))))) \<noteq>
     drop_tstate (thr (the (run contend_until_drop (init created))) 0)"
proof -
  obtain s0 where s0: "run contend_until_drop (init created) = Some s0"
    using contend_until_drop_eval by blast
  obtain s where s: "run handed_over s0 = Some s"
    using handed_over_eval s0 by auto
  have "gil_last_holder s \<noteq> drop_tstate (thr s0 0)"
    using forced_handoff [OF created_eq inj_thread_state s0 _ _ _ s, of 0]
      contend_until_drop_eval handed_over_eval s0 s by simp
  then show ?thesis
    using created_eq inj_thread_state contend_until_drop_eval handed_over_eval s0 s by simp
qed

text \<open>
  C2.  The claim fails where \<open>pthread_cond_wait\<close> wakes up spuriously, as POSIX allows:
  line 264 tests \<open>gil_last_holder == tstate\<close> once, with \<open>if\<close>, and line 265 waits once.
  Thread 0 calls \<open>drop_gil(Addr 1)\<close> with the drop request set while thread 1 waits for
  the lock; its wait on \<open>switch_cond\<close> returns with no signal; \<open>drop_gil\<close> returns while
  \<open>gil_last_holder\<close> is still \<open>Addr 1\<close>, thread 1 has not yet returned from its timed
  wait, and no thread has executed lines 304--307 since the call.
\<close>

theorem drop_gil_returns_after_spurious_wakeup:
  "create_gil 0 0 0 0 static_init = Inr created \<and>
   run contend_until_drop (init created) \<noteq> None \<and>
   pc (thr (the (run contend_until_drop (init created))) 0) = D_247 \<and>
   drop_tstate (thr (the (run contend_until_drop (init created))) 0) = Addr 1 \<and>
   gil_drop_request (the (run contend_until_drop (init created))) = 1 \<and>
   run woken_spuriously (the (run contend_until_drop (init created))) \<noteq> None \<and>
   stays 0 woken_spuriously \<and>
   pc (thr (the (run woken_spuriously (the (run contend_until_drop (init created))))) 0) = Idle \<and>
   pc (thr (the (run woken_spuriously (the (run contend_until_drop (init created))))) 1) =
     T_289_blocked \<and>
   gil_last_holder (the (run woken_spuriously (the (run contend_until_drop (init created))))) = Addr 1 \<and>
   acquisitions woken_spuriously (the (run contend_until_drop (init created))) = []"
  using created_eq by (intro conjI; code_simp)

end
